theory Spec2Isabelle
  imports Complex_Main "HOL-Library.Word" "HOL-Library.Multiset"
begin

unbundle bit_operations_syntax

section \<open>Huffman tree (huffman.h)\<close>

text \<open>
  \<^verbatim>\<open>struct node_t { node_t *left, *right; size_t freq; char t; unsigned int c; }\<close>.
  Nodes are allocated from \<^verbatim>\<open>pool\<close> by \<^verbatim>\<open>new_node\<close> and never written again, so the
  pointer structure is a tree: \<^verbatim>\<open>t = 1\<close> is a leaf carrying the vertex \<^verbatim>\<open>c\<close>,
  \<^verbatim>\<open>t = 0\<close> an inner node with its two children. Frequencies are \<^verbatim>\<open>size_t\<close>; they
  are naturals here and never exceed the number of vertex occurrences in the pool.
\<close>

datatype node =
    Leaf (nfreq: nat) (nc: nat)
  | Inner (nleft: node) (nright: node) (nfreq: nat)

text \<open>
  \<^verbatim>\<open>struct HuffmanTree\<close>. \<open>pool\<close> holds the nodes allocated so far (\<^verbatim>\<open>n_nodes\<close> is
  its length). \<open>qq\<close> holds the live heap entries \<^verbatim>\<open>qq[1] .. qq[qend-1]\<close>, so the
  source's \<^verbatim>\<open>qq[i]\<close> is \<open>qq ! (i - 1)\<close> and \<^verbatim>\<open>qend\<close> is \<open>length qq + 1\<close>.
  \<open>code\<close> and \<open>cout\<close> are the arrays of \<^verbatim>\<open>stateNum\<close> entries that
  \<^verbatim>\<open>createHuffmanTree\<close> zeroes: a null code pointer is \<open>None\<close>.
\<close>

record HuffmanTree =
  stateNum :: nat
  allNodes :: nat
  pool :: "node list"
  qq :: "node list"
  code :: "(64 word \<times> 64 word) option list"
  cout :: "8 word list"
  maxvtx :: nat

definition createHuffmanTree :: "nat \<Rightarrow> HuffmanTree" where
  "createHuffmanTree n =
     \<lparr> stateNum = n, allNodes = 2 * n, pool = [], qq = [],
       code = replicate n None, cout = replicate n 0, maxvtx = 0 \<rparr>"

text \<open>\<^verbatim>\<open>qend\<close> of the source.\<close>

definition qend :: "HuffmanTree \<Rightarrow> nat" where
  "qend h = length (qq h) + 1"

text \<open>
  \<^verbatim>\<open>new_node\<close>: with a nonzero frequency a leaf, otherwise the inner node over
  \<open>a\<close> and \<open>b\<close> whose frequency is the sum of theirs. The node is appended to the pool.
\<close>

definition new_node :: "HuffmanTree \<Rightarrow> nat \<Rightarrow> nat \<Rightarrow> node \<Rightarrow> node \<Rightarrow> node \<times> HuffmanTree" where
  "new_node h fr ch a b =
     (let n = (if fr \<noteq> 0 then Leaf fr ch else Inner a b (nfreq a + nfreq b))
      in (n, h\<lparr>pool := pool h @ [n]\<rparr>))"

subsection \<open>The priority queue of the tree builder\<close>

text \<open>
  \<^verbatim>\<open>qinsert\<close>: the new slot is \<^verbatim>\<open>i = qend++\<close>; parents with a larger frequency move
  down until the place of \<open>n\<close> is found. The list has already been extended by one slot.
\<close>

function qinsert_loop :: "node \<Rightarrow> nat \<Rightarrow> node list \<Rightarrow> node list" where
  "qinsert_loop n i qs =
     (let j = i div 2 in
      if j \<noteq> 0 then
        (if nfreq (qs ! (j - 1)) \<le> nfreq n then qs[i - 1 := n]
         else qinsert_loop n j (qs[i - 1 := qs ! (j - 1)]))
      else qs[i - 1 := n])"
  by pat_completeness auto
termination
  by (relation "measure (\<lambda>(n, i, qs). i)") auto

declare qinsert_loop.simps [simp del]

definition qinsert :: "HuffmanTree \<Rightarrow> node \<Rightarrow> HuffmanTree" where
  "qinsert h n = h\<lparr>qq := qinsert_loop n (qend h) (qq h @ [n])\<rparr>"

text \<open>
  \<^verbatim>\<open>qremove\<close>: returns \<^verbatim>\<open>qq[1]\<close> (null when the queue is empty), moves the last entry
  to the root and sifts it down. \<open>e\<close> is the decremented \<^verbatim>\<open>qend\<close>.
\<close>

function qremove_loop :: "nat \<Rightarrow> nat \<Rightarrow> node list \<Rightarrow> node list" where
  "qremove_loop i e qs =
     (let l = 2 * i in
      if l < e \<and> 0 < i then
        (let l = (if l + 1 < e \<and> nfreq (qs ! l) < nfreq (qs ! (l - 1)) then l + 1 else l) in
         if nfreq (qs ! (i - 1)) > nfreq (qs ! (l - 1))
         then qremove_loop l e (qs[i - 1 := qs ! (l - 1), l - 1 := qs ! (i - 1)])
         else qs)
      else qs)"
  by pat_completeness auto
termination
  by (relation "measure (\<lambda>(i, e, qs). e - i)") auto

declare qremove_loop.simps [simp del]

definition qremove :: "HuffmanTree \<Rightarrow> (node \<times> HuffmanTree) option" where
  "qremove h =
     (if qend h < 2 then None
      else let e = qend h - 1;
               qs = (qq h)[0 := qq h ! (e - 1)]
           in Some (qq h ! 0, h\<lparr>qq := qremove_loop 1 e (take (e - 1) qs)\<rparr>))"

subsection \<open>Code book\<close>

text \<open>
  \<^verbatim>\<open>build_code\<close> walks the tree with the path so far in \<^verbatim>\<open>out1\<close> (first 64 bits)
  and \<^verbatim>\<open>out2\<close>. At a leaf the code is stored left-aligned and the length is stored in
  the byte \<^verbatim>\<open>cout[c]\<close>, that is, modulo 256. The C shift by \<^verbatim>\<open>64 - len\<close> with
  \<^verbatim>\<open>len = 0\<close> (a tree that is a single leaf) is applied to \<^verbatim>\<open>out1 = 0\<close> and yields 0 here.
\<close>

fun build_code :: "node \<Rightarrow> nat \<Rightarrow> 64 word \<Rightarrow> 64 word \<Rightarrow> HuffmanTree \<Rightarrow> HuffmanTree" where
  "build_code (Leaf fr ch) len out1 out2 h =
     h\<lparr> code := (code h)[ch := Some (if len \<le> 64 then (push_bit (64 - len) out1, out2)
                                       else (out1, push_bit (128 - len) out2))],
        cout := (cout h)[ch := of_nat len] \<rparr>"
| "build_code (Inner l r fr) len out1 out2 h =
     (if len div 64 = 0 then
        (let o1 = push_bit 1 out1 OR 0;
             h1 = build_code l (len + 1) o1 0 h;
             o1' = o1 OR 1
         in build_code r (len + 1) o1' 0 h1)
      else
        (let o2 = (if len mod 64 \<noteq> 0 then push_bit 1 out2 else out2) OR 0;
             h1 = build_code l (len + 1) out1 o2 h;
             o2' = o2 OR 1
         in build_code r (len + 1) out1 o2' h1))"

subsection \<open>Building the tree from the pool of RR sets\<close>

text \<open>
  Counting into an array: \<^verbatim>\<open>counters[v] += 1\<close> for every \<open>v\<close> of a list. The frequency
  array of \<^verbatim>\<open>initByRRRSets\<close> counts every vertex of every RR set.
\<close>

definition tally :: "nat list \<Rightarrow> nat list \<Rightarrow> nat list" where
  "tally vs counters = fold (\<lambda>v g. g[v := g ! v + 1]) vs counters"

definition count_freq :: "nat \<Rightarrow> nat list list \<Rightarrow> nat list" where
  "count_freq m RRRsets = fold tally RRRsets (replicate m 0)"

text \<open>
  The leaf loop of \<^verbatim>\<open>initByRRRSets\<close>: for every vertex with a nonzero frequency, in
  ascending order, update the running maximum with \<^verbatim>\<open>freq[i] >= max_freq\<close> and insert
  a leaf. The state is the tree, the maximum vertex and the maximum frequency.
\<close>

definition leaf_step :: "nat list \<Rightarrow> nat \<Rightarrow> HuffmanTree \<times> nat \<times> nat \<Rightarrow> HuffmanTree \<times> nat \<times> nat" where
  "leaf_step fr i s =
     (case s of (h, mv, mf) \<Rightarrow>
        if fr ! i \<noteq> 0 then
          (let (mv', mf') = (if fr ! i \<ge> mf then (i, fr ! i) else (mv, mf));
               (n, h') = new_node h (fr ! i) i (Leaf 0 0) (Leaf 0 0)
           in (qinsert h' n, mv', mf'))
        else (h, mv, mf))"

definition insert_leaves :: "nat list \<Rightarrow> HuffmanTree \<times> nat \<times> nat \<Rightarrow> HuffmanTree \<times> nat \<times> nat" where
  "insert_leaves fr s = fold (leaf_step fr) [0 ..< length fr] s"

text \<open>
  \<^verbatim>\<open>while (qend > 2) qinsert(new_node(0, 0, qremove(), qremove()))\<close>. C++ leaves the
  order in which the two arguments are evaluated unspecified. The model follows g++,
  which evaluates the last argument first: the node removed first is \<open>b\<close>, the right
  child, and the node removed second is \<open>a\<close>, the left child. The other order mirrors
  the tree.
\<close>

function merge_loop :: "HuffmanTree \<Rightarrow> HuffmanTree" where
  "merge_loop h =
     (if qend h > 2 then
        (case qremove h of
           None \<Rightarrow> h
         | Some (b, h1) \<Rightarrow>
             (case qremove h1 of
                None \<Rightarrow> h1
              | Some (a, h2) \<Rightarrow>
                  (let (n, h3) = new_node h2 0 0 a b in merge_loop (qinsert h3 n))))
      else h)"
  by pat_completeness auto

lemma length_qinsert_loop [simp]: "length (qinsert_loop n i qs) = length qs"
  by (induction n i qs rule: qinsert_loop.induct) (subst qinsert_loop.simps, simp add: Let_def)

lemma length_qremove_loop [simp]: "length (qremove_loop i e qs) = length qs"
  by (induction i e qs rule: qremove_loop.induct) (subst qremove_loop.simps, simp add: Let_def)

lemma qq_new_node [simp]: "qq (snd (new_node h fr ch a b)) = qq h"
  by (simp add: new_node_def Let_def)

lemma length_qq_qinsert [simp]: "length (qq (qinsert h n)) = length (qq h) + 1"
  by (simp add: qinsert_def)

lemma length_qq_qremove:
  "qremove h = Some (a, h1) \<Longrightarrow> length (qq h1) + 1 = length (qq h)"
  by (auto simp: qremove_def qend_def Let_def split: if_splits)

termination merge_loop
proof (relation "measure (\<lambda>h. length (qq h))", goal_cases)
  case 1
  show ?case by simp
next
  case (2 h x2 b h1 x2' a h2 p n h3)
  have "length (qq h1) + 1 = length (qq h)" "length (qq h2) + 1 = length (qq h1)"
    using 2 length_qq_qremove [of h b h1] length_qq_qremove [of h1 a h2] by auto
  moreover have "h3 = snd (new_node h2 0 0 a b)"
    using 2 by (metis snd_conv)
  then have "qq h3 = qq h2"
    by simp
  ultimately show ?case by simp
qed

declare merge_loop.simps [simp del]

text \<open>
  \<^verbatim>\<open>initByRRRSets\<close>: count, insert the leaves, merge, then
  \<^verbatim>\<open>build_code(huffmanTree, qq[1], 0, 0, 0)\<close> and store the maximum vertex. With no
  vertex at all in the pool \<^verbatim>\<open>qq[1]\<close> is the null pointer that \<^verbatim>\<open>memset\<close> left
  there and \<^verbatim>\<open>build_code\<close> dereferences it: the result is \<open>None\<close>. Vertex ids are
  assumed below \<^verbatim>\<open>allNodes\<close>, the size of the frequency array.
\<close>

definition initByRRRSets :: "HuffmanTree \<Rightarrow> nat list list \<Rightarrow> (HuffmanTree \<times> nat) option" where
  "initByRRRSets h RRRsets =
     (let fr = count_freq (allNodes h) RRRsets;
          (h1, mv, mf) = insert_leaves fr (h, 0, 0);
          h2 = merge_loop h1
      in case qq h2 of
           [] \<Rightarrow> None
         | rt # _ \<Rightarrow> Some ((build_code rt 0 0 0 h2)\<lparr>maxvtx := mv\<rparr>, mv))"

text \<open>
  \<^verbatim>\<open>initByRRRSets3\<close> keeps the running maximum in \<^verbatim>\<open>huffmanTree->maxvtx\<close> itself.
\<close>

definition initByRRRSets3 :: "HuffmanTree \<Rightarrow> nat list list \<Rightarrow> HuffmanTree option" where
  "initByRRRSets3 h RRRsets =
     (let fr = count_freq (allNodes h) RRRsets;
          (h1, mv, mf) = insert_leaves fr (h, maxvtx h, 0);
          h2 = merge_loop (h1\<lparr>maxvtx := mv\<rparr>)
      in case qq h2 of
           [] \<Rightarrow> None
         | rt # _ \<Rightarrow> Some (build_code rt 0 0 0 h2))"

text \<open>
  The root used by the decoders: \<^verbatim>\<open>huffmanTree->pool + huffmanTree->n_nodes - 1\<close>, the
  node allocated last.
\<close>

definition hroot :: "HuffmanTree \<Rightarrow> node option" where
  "hroot h = (if pool h = [] then None else Some (last (pool h)))"

section \<open>Encoding an RR set\<close>

text \<open>
  \<^verbatim>\<open>longToBytes_bigEndian\<close> writes the eight bytes of \<open>num\<close> at \<open>b\<close>, most significant
  first. A write past the end of the buffer is \<open>None\<close>.
\<close>

definition longToBytes_bigEndian :: "nat \<Rightarrow> 64 word \<Rightarrow> 8 word list \<Rightarrow> 8 word list option" where
  "longToBytes_bigEndian b num buf =
     (if b + 8 \<le> length buf then
        Some (buf[b := ucast (drop_bit 56 num), b + 1 := ucast (drop_bit 48 num),
                  b + 2 := ucast (drop_bit 40 num), b + 3 := ucast (drop_bit 32 num),
                  b + 4 := ucast (drop_bit 24 num), b + 5 := ucast (drop_bit 16 num),
                  b + 6 := ucast (drop_bit 8 num), b + 7 := ucast num])
      else None)"

text \<open>
  The state of one encoder run: the output buffer \<^verbatim>\<open>out\<close>, the offset of the write
  pointer \<^verbatim>\<open>p\<close> in it, \<^verbatim>\<open>lackBits\<close>, \<^verbatim>\<open>*encodeSize\<close>, \<^verbatim>\<open>*code_cnt\<close>, the overflow
  entries \<^verbatim>\<open>cpy[0 .. j)\<close> and \<^verbatim>\<open>*copy_cnt\<close>.
\<close>

record enc_state =
  e_out :: "8 word list"
  e_p :: nat
  e_lackBits :: nat
  e_encodeSize :: nat
  e_code_cnt :: nat
  e_cpy :: "nat list"
  e_copy_cnt :: nat

definition enc_init :: "8 word list \<Rightarrow> enc_state" where
  "enc_init buf = \<lparr> e_out = buf, e_p = 0, e_lackBits = 0, e_encodeSize = 0,
                     e_code_cnt = 0, e_cpy = [], e_copy_cnt = 0 \<rparr>"

text \<open>\<^verbatim>\<open>bitSize%8==0 ? bitSize/8 : bitSize/8+1\<close> and \<^verbatim>\<open>bitSize%8==0 ? 0 : 8 - bitSize%8\<close>.\<close>

definition byteSize_of :: "nat \<Rightarrow> nat" where
  "byteSize_of bitSize = (if bitSize mod 8 = 0 then bitSize div 8 else bitSize div 8 + 1)"

definition lackBits_of :: "nat \<Rightarrow> nat" where
  "lackBits_of bitSize = (if bitSize mod 8 = 0 then 0 else 8 - bitSize mod 8)"

text \<open>
  The block that appends one code \<open>cd\<close> of \<open>bitSize\<close> bits, the same text in
  \<^verbatim>\<open>encodeRR\<close>, \<^verbatim>\<open>encodeRR2\<close>, \<^verbatim>\<open>encodeRR22\<close> and \<^verbatim>\<open>encodeRR3\<close>, after
  \<^verbatim>\<open>*code_cnt += 1\<close>. The branch for \<^verbatim>\<open>bitSize > 64\<close> with \<^verbatim>\<open>lackBits != 0\<close> adds
  the uninitialised \<^verbatim>\<open>byteSize\<close> to \<^verbatim>\<open>*encodeSize\<close>: it is \<open>None\<close>, as is every read
  or write outside the buffer.
\<close>

definition putCode :: "64 word \<times> 64 word \<Rightarrow> nat \<Rightarrow> enc_state \<Rightarrow> enc_state option" where
  "putCode cd bitSize st =
     (if e_lackBits st = 0 then
        (let byteSize = byteSize_of bitSize; byteSizep = bitSize div 8 in
         if byteSize \<le> 8 then
           (case longToBytes_bigEndian (e_p st) (fst cd) (e_out st) of
              None \<Rightarrow> None
            | Some buf \<Rightarrow>
                Some (st\<lparr> e_out := buf, e_p := e_p st + byteSizep,
                          e_encodeSize := e_encodeSize st + byteSize,
                          e_lackBits := lackBits_of bitSize \<rparr>))
         else
           (case longToBytes_bigEndian (e_p st) (fst cd) (e_out st) of
              None \<Rightarrow> None
            | Some buf \<Rightarrow>
                (case longToBytes_bigEndian (e_p st + 8) (snd cd) buf of
                   None \<Rightarrow> None
                 | Some buf' \<Rightarrow>
                     Some (st\<lparr> e_out := buf', e_p := e_p st + 8 + (byteSizep - 8),
                               e_encodeSize := e_encodeSize st + byteSize,
                               e_lackBits := lackBits_of bitSize \<rparr>))))
      else if e_p st < length (e_out st) then
        (let lackBits = e_lackBits st;
             buf = (e_out st)[e_p st := (e_out st ! e_p st) OR ucast (drop_bit (64 - lackBits) (fst cd))]
         in if lackBits < bitSize then
              (case longToBytes_bigEndian (e_p st + 1) (push_bit lackBits (fst cd)) buf of
                 None \<Rightarrow> None
               | Some buf' \<Rightarrow>
                   if bitSize \<le> 64 then
                     (let bitSize' = bitSize - lackBits in
                      Some (st\<lparr> e_out := buf', e_p := e_p st + 1 + bitSize' div 8,
                                e_encodeSize := e_encodeSize st + byteSize_of bitSize',
                                e_lackBits := lackBits_of bitSize' \<rparr>))
                   else None)
            else
              Some (st\<lparr> e_out := buf,
                        e_p := (if lackBits - bitSize = 0 then e_p st + 1 else e_p st),
                        e_lackBits := lackBits - bitSize \<rparr>))
      else None)"

text \<open>
  One iteration of the encoder loop for the vertex \<open>state\<close>. \<open>enc\<close> is the test that
  sends a vertex to the bit stream (\<^verbatim>\<open>bitSize<20 && bitSize\<close> in \<^verbatim>\<open>encodeRR\<close>,
  \<^verbatim>\<open>bitSize<=32 && bitSize\<close> in the others); \<open>keep\<close> says whether a vertex that fails
  it is stored in \<^verbatim>\<open>cpy\<close> (always, except in \<^verbatim>\<open>encodeRR22\<close> with a lossy flag other
  than \<^verbatim>\<open>"N"\<close>). A vertex outside \<^verbatim>\<open>cout\<close>, or one with a length but a null code
  pointer, is \<open>None\<close>.
\<close>

definition enc_step :: "HuffmanTree \<Rightarrow> (nat \<Rightarrow> bool) \<Rightarrow> bool \<Rightarrow> nat \<Rightarrow> enc_state \<Rightarrow> enc_state option" where
  "enc_step h enc keep state st =
     (if state < length (cout h) then
        (let bitSize = unat (cout h ! state) in
         if enc bitSize then
           (case code h ! state of
              None \<Rightarrow> None
            | Some cd \<Rightarrow> putCode cd bitSize (st\<lparr>e_code_cnt := e_code_cnt st + 1\<rparr>))
         else
           Some (st\<lparr> e_copy_cnt := e_copy_cnt st + 1,
                     e_cpy := (if keep then e_cpy st @ [state] else e_cpy st) \<rparr>))
      else None)"

fun enc_loop :: "HuffmanTree \<Rightarrow> (nat \<Rightarrow> bool) \<Rightarrow> bool \<Rightarrow> nat list \<Rightarrow> enc_state \<Rightarrow> enc_state option" where
  "enc_loop h enc keep [] st = Some st"
| "enc_loop h enc keep (v # vs) st =
     (case enc_step h enc keep v st of
        None \<Rightarrow> None
      | Some st' \<Rightarrow> enc_loop h enc keep vs st')"

text \<open>
  \<^verbatim>\<open>encodeRR\<close> (used by \<^verbatim>\<open>encodeRRRSets\<close>): the first \<open>length\<close> vertices of the RR
  set, codes shorter than 20 bits. The counters come from the caller, which zeroes them.
\<close>

definition encodeRR :: "HuffmanTree \<Rightarrow> nat list \<Rightarrow> 8 word list \<Rightarrow> enc_state option" where
  "encodeRR h R out = enc_loop h (\<lambda>bitSize. bitSize < 20 \<and> bitSize \<noteq> 0) True R (enc_init out)"

text \<open>
  \<^verbatim>\<open>std::find\<close> followed by \<^verbatim>\<open>std::iter_swap(begin, maxp)\<close>: the first occurrence of
  \<open>maxvtx\<close>, if any, changes places with the first element of the RR set.
\<close>

fun find_index_of :: "nat \<Rightarrow> nat list \<Rightarrow> nat" where
  "find_index_of x [] = 0"
| "find_index_of x (y # ys) = (if x = y then 0 else Suc (find_index_of x ys))"

definition swap_max_front :: "nat \<Rightarrow> nat list \<Rightarrow> nat list" where
  "swap_max_front mv R =
     (let i = find_index_of mv R in
      if i \<noteq> length R then R[0 := R ! i, i := R ! 0] else R)"

text \<open>
  \<^verbatim>\<open>encodeRR22\<close> (used by \<^verbatim>\<open>encodeRRRSets3\<close>): swaps in place, zeroes the counters,
  then encodes codes of at most 32 bits. The result is the RR set as the call leaves it
  and the encoder state.
\<close>

definition encodeRR22 ::
  "HuffmanTree \<Rightarrow> nat list \<Rightarrow> 8 word list \<Rightarrow> nat \<Rightarrow> string \<Rightarrow> (nat list \<times> enc_state) option" where
  "encodeRR22 h R out mv lossyFlag =
     (let R' = swap_max_front mv R in
      case enc_loop h (\<lambda>bitSize. bitSize \<le> 32 \<and> bitSize \<noteq> 0) (lossyFlag = ''N'') R' (enc_init out) of
        None \<Rightarrow> None
      | Some st \<Rightarrow> Some (R', st))"

text \<open>
  \<^verbatim>\<open>encodeRR3\<close> takes the RR set by value, so the swap is local to the call.
\<close>

definition encodeRR3 :: "HuffmanTree \<Rightarrow> nat list \<Rightarrow> 8 word list \<Rightarrow> nat \<Rightarrow> enc_state option" where
  "encodeRR3 h tmpR out mv =
     enc_loop h (\<lambda>bitSize. bitSize \<le> 32 \<and> bitSize \<noteq> 0) True (swap_max_front mv tmpR) (enc_init out)"

text \<open>
  \<^verbatim>\<open>encodeRR2\<close> (used by \<^verbatim>\<open>encodeRRRSets2\<close>) also counts every vertex in
  \<^verbatim>\<open>globalcnt\<close> and moves \<^verbatim>\<open>*maxvtx\<close> with \<^verbatim>\<open>globalcnt[state] >= globalcnt[*maxvtx]\<close>
  before it encodes the vertex.
\<close>

fun encodeRR2_loop ::
  "HuffmanTree \<Rightarrow> nat list \<Rightarrow> enc_state \<times> nat list \<times> nat \<Rightarrow> (enc_state \<times> nat list \<times> nat) option" where
  "encodeRR2_loop h [] s = Some s"
| "encodeRR2_loop h (state # vs) (st, globalcnt, mv) =
     (let globalcnt' = globalcnt[state := globalcnt ! state + 1];
          mv' = (if globalcnt' ! state \<ge> globalcnt' ! mv then state else mv)
      in case enc_step h (\<lambda>bitSize. bitSize \<le> 32 \<and> bitSize \<noteq> 0) True state st of
           None \<Rightarrow> None
         | Some st' \<Rightarrow> encodeRR2_loop h vs (st', globalcnt', mv'))"

definition encodeRR2 ::
  "HuffmanTree \<Rightarrow> nat list \<Rightarrow> 8 word list \<Rightarrow> nat list \<Rightarrow> nat \<Rightarrow> (enc_state \<times> nat list \<times> nat) option" where
  "encodeRR2 h R out globalcnt mv = encodeRR2_loop h R (enc_init out, globalcnt, mv)"

subsection \<open>The compressed store\<close>

text \<open>
  One compressed RR set: \<^verbatim>\<open>compR[i]\<close> (the first \<^verbatim>\<open>encodeSize\<close> bytes of the scratch
  buffer), \<^verbatim>\<open>compBytes[i]\<close>, \<^verbatim>\<open>codeCnt[i]\<close>, \<^verbatim>\<open>copyR[i]\<close> and \<^verbatim>\<open>copyCnt[i]\<close>.
\<close>

record comp_rr =
  compR :: "8 word list"
  compBytes :: nat
  codeCnt :: nat
  copyR :: "nat list"
  copyCnt :: nat

definition store_of :: "enc_state \<Rightarrow> comp_rr" where
  "store_of st = \<lparr> compR = take (e_encodeSize st) (e_out st), compBytes = e_encodeSize st,
                    codeCnt = e_code_cnt st, copyR = e_cpy st, copyCnt = e_copy_cnt st \<rparr>"

text \<open>
  \<^verbatim>\<open>encodeRRRSets\<close>: every RR set is encoded by \<^verbatim>\<open>encodeRR\<close> into a zeroed scratch
  buffer of \<^verbatim>\<open>s2 * sizeof(unsigned long)\<close> bytes. The pool is left as it is.
\<close>

fun encodeRRRSets :: "HuffmanTree \<Rightarrow> nat list list \<Rightarrow> comp_rr list option" where
  "encodeRRRSets h [] = Some []"
| "encodeRRRSets h (R # Rs) =
     (case encodeRR h R (replicate (length R * 8) 0) of
        None \<Rightarrow> None
      | Some st \<Rightarrow>
          (case encodeRRRSets h Rs of
             None \<Rightarrow> None
           | Some cs \<Rightarrow> Some (store_of st # cs)))"

text \<open>
  \<^verbatim>\<open>encodeRRRSets3\<close>: the RR sets from \<open>blockoffset\<close> on are encoded by
  \<^verbatim>\<open>encodeRR22\<close> and then emptied (\<^verbatim>\<open>clear(); shrink_to_fit()\<close>). The result is the
  pool as the call leaves it and the compressed entries of the block. \<open>encodeRR22_all\<close>
  is the loop before the clearing, which shows each RR set as \<^verbatim>\<open>encodeRR22\<close> leaves it.
\<close>

fun encodeRR22_all ::
  "HuffmanTree \<Rightarrow> nat list list \<Rightarrow> nat \<Rightarrow> string \<Rightarrow> (nat list list \<times> comp_rr list) option" where
  "encodeRR22_all h [] mv lossyFlag = Some ([], [])"
| "encodeRR22_all h (R # Rs) mv lossyFlag =
     (case encodeRR22 h R (replicate (length R * 8) 0) mv lossyFlag of
        None \<Rightarrow> None
      | Some (R', st) \<Rightarrow>
          (case encodeRR22_all h Rs mv lossyFlag of
             None \<Rightarrow> None
           | Some (Rs', cs) \<Rightarrow> Some (R' # Rs', store_of st # cs)))"

definition encodeRRRSets3 ::
  "HuffmanTree \<Rightarrow> nat list list \<Rightarrow> nat \<Rightarrow> nat \<Rightarrow> string \<Rightarrow> (nat list list \<times> comp_rr list) option" where
  "encodeRRRSets3 h RRRsets blockoffset mv lossyFlag =
     (case encodeRR22_all h (drop blockoffset RRRsets) mv lossyFlag of
        None \<Rightarrow> None
      | Some (Rs', cs) \<Rightarrow> Some (take blockoffset RRRsets @ map (\<lambda>R. []) Rs', cs))"

section \<open>Decoding\<close>

text \<open>
  \<^verbatim>\<open>decode\<close>: with a leaf as root the output is \<open>targetLength\<close> copies of its vertex.
  Otherwise bit \<open>i\<close> of the stream, most significant bit of each byte first, selects the
  left (0) or right (1) child; at a leaf the vertex is emitted and the walk restarts at
  the root. A read past the end of \<open>s\<close> is \<open>None\<close>.
\<close>

function decode_loop :: "8 word list \<Rightarrow> nat \<Rightarrow> node \<Rightarrow> node \<Rightarrow> nat \<Rightarrow> nat list \<Rightarrow> nat list option" where
  "decode_loop s targetLength t n i out =
     (if length out < targetLength then
        (if i div 8 < length s then
           (case n of
              Leaf fr ch \<Rightarrow> None
            | Inner l r fr \<Rightarrow>
                (let n' = (if \<not> bit (s ! (i div 8)) (7 - i mod 8) then l else r) in
                 case n' of
                   Leaf fr' ch \<Rightarrow> decode_loop s targetLength t t (i + 1) (out @ [ch])
                 | Inner l' r' fr' \<Rightarrow> decode_loop s targetLength t n' (i + 1) out))
         else None)
      else Some out)"
  by pat_completeness auto
termination
  by (relation "measure (\<lambda>(s, targetLength, t, n, i, out). 8 * length s - i)") auto

declare decode_loop.simps [simp del]

definition decode :: "8 word list \<Rightarrow> nat \<Rightarrow> node \<Rightarrow> nat list option" where
  "decode s targetLength t =
     (case t of
        Leaf fr ch \<Rightarrow> Some (replicate targetLength ch)
      | Inner l r fr \<Rightarrow> decode_loop s targetLength t t 0 [])"

text \<open>
  \<^verbatim>\<open>decodeCheck\<close> also stops as soon as the emitted vertex is \<open>target\<close>, setting
  \<^verbatim>\<open>*find_flag\<close>. The result is the vertices counted so far and the flag. With a leaf
  as root the flag is left as it was (false at every call site).
\<close>

function decodeCheck_loop ::
  "8 word list \<Rightarrow> nat \<Rightarrow> node \<Rightarrow> nat \<Rightarrow> node \<Rightarrow> nat \<Rightarrow> nat list \<Rightarrow> (nat list \<times> bool) option" where
  "decodeCheck_loop s targetLength t target n i out =
     (if length out < targetLength then
        (if i div 8 < length s then
           (case n of
              Leaf fr ch \<Rightarrow> None
            | Inner l r fr \<Rightarrow>
                (let n' = (if \<not> bit (s ! (i div 8)) (7 - i mod 8) then l else r) in
                 case n' of
                   Leaf fr' ch \<Rightarrow>
                     if ch = target then Some (out, True)
                     else decodeCheck_loop s targetLength t target t (i + 1) (out @ [ch])
                 | Inner l' r' fr' \<Rightarrow> decodeCheck_loop s targetLength t target n' (i + 1) out))
         else None)
      else Some (out, False))"
  by pat_completeness auto
termination
  by (relation "measure (\<lambda>(s, targetLength, t, target, n, i, out). 8 * length s - i)") auto

declare decodeCheck_loop.simps [simp del]

definition decodeCheck :: "8 word list \<Rightarrow> nat \<Rightarrow> node \<Rightarrow> nat \<Rightarrow> (nat list \<times> bool) option" where
  "decodeCheck s targetLength t target =
     (case t of
        Leaf fr ch \<Rightarrow> Some (replicate targetLength ch, False)
      | Inner l r fr \<Rightarrow> decodeCheck_loop s targetLength t target t 0 [])"

section \<open>Selecting seeds on the compressed store (huffman.h)\<close>

text \<open>
  The final loop of \<^verbatim>\<open>DecompAndFind\<close> .. \<^verbatim>\<open>DecompAndFind4\<close>:
  \<^verbatim>\<open>tmpmax = 0; nxtmax = 0; for i: if (globalcnt[i] > tmpmax) { tmpmax = globalcnt[i]; nxtmax = i; }\<close>.
\<close>

definition max_scan :: "nat list \<Rightarrow> nat \<Rightarrow> nat \<times> nat \<Rightarrow> nat \<times> nat" where
  "max_scan globalcnt i s =
     (case s of (tmpmax, nxtmax) \<Rightarrow>
        if globalcnt ! i > tmpmax then (globalcnt ! i, i) else (tmpmax, nxtmax))"

definition next_max :: "nat list \<Rightarrow> nat \<Rightarrow> nat" where
  "next_max globalcnt tot_nodes = snd (fold (max_scan globalcnt) [0 ..< tot_nodes] (0, 0))"

text \<open>
  The body of the loop over the compressed RR sets in \<^verbatim>\<open>DecompAndFind\<close> for one RR
  set that is not deleted: probe the bit stream, then the overflow list; a hit counts in
  \<^verbatim>\<open>freq\<close> and sets the delete flag, a miss adds the decoded and the overflow vertices
  to \<^verbatim>\<open>globalcnt\<close>. The result is the new flag, \<^verbatim>\<open>globalcnt\<close> and \<^verbatim>\<open>freq\<close>.
\<close>

definition probe_rr :: "node \<Rightarrow> nat \<Rightarrow> comp_rr \<Rightarrow> nat list \<Rightarrow> nat \<Rightarrow> (bool \<times> nat list \<times> nat) option" where
  "probe_rr hr mv c globalcnt fq =
     (case decodeCheck (compR c) (codeCnt c) hr mv of
        None \<Rightarrow> None
      | Some (decodes, find_flag) \<Rightarrow>
          (let found = (find_flag \<or> mv \<in> set (take (copyCnt c) (copyR c))) in
           if found then Some (True, globalcnt, fq + 1)
           else Some (False, tally (take (copyCnt c) (copyR c)) (tally decodes globalcnt), fq)))"

fun DecompAndFind_loop ::
  "node \<Rightarrow> nat \<Rightarrow> comp_rr list \<Rightarrow> bool list \<Rightarrow> nat list \<Rightarrow> nat \<Rightarrow> (bool list \<times> nat list \<times> nat) option" where
  "DecompAndFind_loop hr mv (c # cs) (d # ds) globalcnt fq =
     (if d then
        (case DecompAndFind_loop hr mv cs ds globalcnt fq of
           None \<Rightarrow> None
         | Some (ds', g', fq') \<Rightarrow> Some (d # ds', g', fq'))
      else
        (case probe_rr hr mv c globalcnt fq of
           None \<Rightarrow> None
         | Some (d', g1, fq1) \<Rightarrow>
             (case DecompAndFind_loop hr mv cs ds g1 fq1 of
                None \<Rightarrow> None
              | Some (ds', g', fq') \<Rightarrow> Some (d' # ds', g', fq'))))"
| "DecompAndFind_loop hr mv cs ds globalcnt fq = Some (ds, globalcnt, fq)"

text \<open>
  \<^verbatim>\<open>DecompAndFind\<close>: the next maximum vertex, \<^verbatim>\<open>*freq\<close> and the delete flags. Without
  a node in the pool there is no root to decode with (\<open>None\<close>).
\<close>

definition DecompAndFind ::
  "HuffmanTree \<Rightarrow> nat \<Rightarrow> comp_rr list \<Rightarrow> bool list \<Rightarrow> nat \<Rightarrow> (nat \<times> nat \<times> bool list) option" where
  "DecompAndFind h tot_nodes cstore deleteflag mv =
     (case hroot h of
        None \<Rightarrow> None
      | Some hr \<Rightarrow>
          (case DecompAndFind_loop hr mv cstore deleteflag (replicate tot_nodes 0) 0 of
             None \<Rightarrow> None
           | Some (ds, globalcnt, fq) \<Rightarrow> Some (next_max globalcnt tot_nodes, fq, ds)))"

text \<open>
  \<^verbatim>\<open>DecompAndFind3\<close> is the same loop as an OpenMP reduction, with three differences:
  \<^verbatim>\<open>decodeCheck\<close> runs only when \<^verbatim>\<open>codeCnt[i] > 0\<close>, and the overflow list is read
  only when the lossy flag is \<^verbatim>\<open>"N"\<close>. The reduction adds the per-thread tallies, which
  is the sequential tally.
\<close>

definition probe_rr3 ::
  "node \<Rightarrow> nat \<Rightarrow> string \<Rightarrow> comp_rr \<Rightarrow> nat list \<Rightarrow> nat \<Rightarrow> (bool \<times> nat list \<times> nat) option" where
  "probe_rr3 hr mv lossyFlag c globalcnt fq =
     (case (if codeCnt c > 0 then decodeCheck (compR c) (codeCnt c) hr mv else Some ([], False)) of
        None \<Rightarrow> None
      | Some (decodes, find_flag) \<Rightarrow>
          (let copied = (if lossyFlag = ''N'' then take (copyCnt c) (copyR c) else []);
               found = (find_flag \<or> mv \<in> set copied) in
           if found then Some (True, globalcnt, fq + 1)
           else Some (False, tally copied (tally decodes globalcnt), fq)))"

fun DecompAndFind3_loop ::
  "node \<Rightarrow> nat \<Rightarrow> string \<Rightarrow> comp_rr list \<Rightarrow> bool list \<Rightarrow> nat list \<Rightarrow> nat \<Rightarrow> (bool list \<times> nat list \<times> nat) option" where
  "DecompAndFind3_loop hr mv lf (c # cs) (d # ds) globalcnt fq =
     (if d then
        (case DecompAndFind3_loop hr mv lf cs ds globalcnt fq of
           None \<Rightarrow> None
         | Some (ds', g', fq') \<Rightarrow> Some (d # ds', g', fq'))
      else
        (case probe_rr3 hr mv lf c globalcnt fq of
           None \<Rightarrow> None
         | Some (d', g1, fq1) \<Rightarrow>
             (case DecompAndFind3_loop hr mv lf cs ds g1 fq1 of
                None \<Rightarrow> None
              | Some (ds', g', fq') \<Rightarrow> Some (d' # ds', g', fq'))))"
| "DecompAndFind3_loop hr mv lf cs ds globalcnt fq = Some (ds, globalcnt, fq)"

definition DecompAndFind3 ::
  "HuffmanTree \<Rightarrow> nat \<Rightarrow> comp_rr list \<Rightarrow> bool list \<Rightarrow> nat \<Rightarrow> string \<Rightarrow> (nat \<times> nat \<times> bool list) option" where
  "DecompAndFind3 h tot_nodes cstore deleteflag mv lossyFlag =
     (case hroot h of
        None \<Rightarrow> None
      | Some hr \<Rightarrow>
          (case DecompAndFind3_loop hr mv lossyFlag cstore deleteflag (replicate tot_nodes 0) 0 of
             None \<Rightarrow> None
           | Some (ds, globalcnt, fq) \<Rightarrow> Some (next_max globalcnt tot_nodes, fq, ds)))"

text \<open>
  The coverage fraction is a \<^verbatim>\<open>double\<close>. Its value is kept as an exact rational
  (rounding is not modelled); the quotient \<open>0 / 0\<close> is the IEEE not-a-number and
  \<open>a / 0\<close> for \<open>a > 0\<close> is infinity.
\<close>

datatype fraction = NaN | PInf | Fin rat

definition ddiv :: "nat \<Rightarrow> nat \<Rightarrow> fraction" where
  "ddiv a b = (if b = 0 then (if a = 0 then NaN else PInf) else Fin (of_nat a / of_nat b))"

text \<open>
  The selection loop of \<^verbatim>\<open>HuffmanFind\<close>:
  \<^verbatim>\<open>while (S2.size() < k && uncovered != 0) { S2.push_back(maxvtx); nxtmax = DecompAndFind(..);
  uncovered -= freq; maxvtx = nxtmax; f = double(R.size() - uncovered) / R.size(); }\<close>.
  \<open>rs\<close> is \<^verbatim>\<open>R.size()\<close>.
\<close>

function HuffmanFind_loop ::
  "HuffmanTree \<Rightarrow> nat \<Rightarrow> comp_rr list \<Rightarrow> nat \<Rightarrow> nat \<Rightarrow>
   nat list \<Rightarrow> nat \<Rightarrow> nat \<Rightarrow> bool list \<Rightarrow> fraction \<Rightarrow> (fraction \<times> nat list) option" where
  "HuffmanFind_loop h n cstore k rs S2 uncovered mv deleteflag f =
     (if length S2 < k \<and> uncovered \<noteq> 0 then
        (case DecompAndFind h n cstore deleteflag mv of
           None \<Rightarrow> None
         | Some (nxtmax, fq, deleteflag') \<Rightarrow>
             HuffmanFind_loop h n cstore k rs (S2 @ [mv]) (uncovered - fq) nxtmax deleteflag'
               (ddiv (rs - (uncovered - fq)) rs))
      else Some (f, S2))"
  by pat_completeness auto
termination
  by (relation "measure (\<lambda>(h, n, cstore, k, rs, S2, uncovered, mv, deleteflag, f). k - length S2)") auto

declare HuffmanFind_loop.simps [simp del]

text \<open>
  \<^verbatim>\<open>HuffmanFind\<close> (the overload without \<^verbatim>\<open>create_flag\<close>): build the tree over
  \<^verbatim>\<open>G.num_nodes()\<close> states from the pool, encode the pool with \<^verbatim>\<open>encodeRRRSets\<close>,
  then select. \<open>f\<close> starts at \<open>0.0\<close>.
\<close>

definition HuffmanFind :: "nat \<Rightarrow> nat \<Rightarrow> nat list list \<Rightarrow> (fraction \<times> nat list) option" where
  "HuffmanFind n k R =
     (case initByRRRSets (createHuffmanTree n) R of
        None \<Rightarrow> None
      | Some (h, mv) \<Rightarrow>
          (case encodeRRRSets h R of
             None \<Rightarrow> None
           | Some cstore \<Rightarrow>
               HuffmanFind_loop h n cstore k (length R) [] (length R) mv
                 (replicate (length R) False) (Fin 0)))"


section \<open>Parallel partition (find_most_influential.h)\<close>

text \<open>
  The sequence \<^verbatim>\<open>[B, E)\<close> is a list and an iterator is an offset from \<^verbatim>\<open>B\<close>.
  \<^verbatim>\<open>swap_ranges(B, E, O)\<close> swaps element \<open>B + i\<close> with element \<open>O + i\<close> for every
  \<open>i < E - B\<close> and returns \<open>O + (E - B)\<close>. The iterations of the OpenMP loop touch
  different elements, so they are run in order.
\<close>

definition swap_ranges :: "nat \<Rightarrow> nat \<Rightarrow> nat \<Rightarrow> 'a list \<Rightarrow> nat \<times> 'a list" where
  "swap_ranges B E O' xs =
     (O' + (E - B),
      fold (\<lambda>i a. a[B + i := a ! (O' + i), O' + i := a ! (B + i)]) [0 ..< E - B] xs)"

record PartitionIndices =
  pi_begin :: nat
  pi_end :: nat
  pi_pivot :: nat

text \<open>
  \<^verbatim>\<open>PartitionIndices::operator+\<close>, with the sequence it swaps in. \<^verbatim>\<open>std::distance\<close>
  is the difference of two offsets.
\<close>

definition pi_plus :: "PartitionIndices \<Rightarrow> PartitionIndices \<Rightarrow> 'a list \<Rightarrow> PartitionIndices \<times> 'a list" where
  "pi_plus this other xs =
     (if pi_pivot this = pi_begin this \<and> pi_pivot other = pi_begin other then
        (this\<lparr>pi_end := pi_end other\<rparr>, xs)
      else if pi_pivot this = pi_end this then
        (this\<lparr>pi_end := pi_end other, pi_pivot := pi_pivot other\<rparr>, xs)
      else if int (pi_end this) - int (pi_pivot this) < int (pi_pivot other) - int (pi_begin other) then
        (let toBeMoved = pi_end this - pi_pivot this;
             (r, xs') = swap_ranges (pi_pivot this) (pi_end this) (pi_pivot other - toBeMoved) xs
         in (this\<lparr>pi_pivot := pi_pivot other - toBeMoved, pi_end := pi_end other\<rparr>, xs'))
      else
        (let (r, xs') = swap_ranges (pi_begin other) (pi_pivot other) (pi_pivot this) xs
         in (this\<lparr>pi_pivot := r, pi_end := pi_end other\<rparr>, xs')))"

text \<open>
  \<^verbatim>\<open>std::partition\<close> is a parameter \<open>sp\<close> of the model: the standard fixes its
  contract, not the order it leaves inside the two parts. \<open>sp P xs\<close> is the reordered
  sequence; the iterator it returns is the number of elements that satisfy \<open>P\<close>.
\<close>

definition partition_contract :: "(('a \<Rightarrow> bool) \<Rightarrow> 'a list \<Rightarrow> 'a list) \<Rightarrow> bool" where
  "partition_contract sp =
     (\<forall>P xs. mset (sp P xs) = mset xs \<and>
             (\<forall>i < length xs. P (sp P xs ! i) = (i < length (filter P xs))))"

text \<open>
  The first parallel region of \<^verbatim>\<open>partition(B, E, P, omp_parallel_tag)\<close>: thread
  \<open>threadnum\<close> of a team of \<open>numthreads\<close> (\<^verbatim>\<open>omp_get_num_threads()\<close>) partitions its
  slice \<^verbatim>\<open>[B + low, min(E, B + high))\<close> and records begin, end and pivot in
  \<^verbatim>\<open>indices[threadnum]\<close>. The slices are disjoint, so the threads are run in order.
\<close>

definition local_partition ::
  "(('a \<Rightarrow> bool) \<Rightarrow> 'a list \<Rightarrow> 'a list) \<Rightarrow> nat \<Rightarrow> ('a \<Rightarrow> bool) \<Rightarrow> nat \<Rightarrow>
   PartitionIndices list \<times> 'a list \<Rightarrow> PartitionIndices list \<times> 'a list" where
  "local_partition sp numthreads P threadnum s =
     (let indices = fst s; xs = snd s;
          num_elements = length xs;
          low = num_elements * threadnum div numthreads;
          high = num_elements * (threadnum + 1) div numthreads;
          b = low; e = min num_elements high;
          seg = take (e - b) (drop b xs)
      in (indices[threadnum := \<lparr> pi_begin = b, pi_end = e, pi_pivot = b + length (filter P seg) \<rparr>],
          take b xs @ sp P seg @ drop e xs))"

text \<open>
  The reduction: \<^verbatim>\<open>for (j = 1; j < num_threads; j <<= 1)
  for (i = 0; i + j < num_threads; i += j * 2) indices[i] = indices[i] + indices[i + j]\<close>,
  where \<^verbatim>\<open>num_threads\<close> is \<^verbatim>\<open>omp_get_max_threads()\<close>. The tasks of one round work on
  different entries, so they are run in order. \<open>j\<close> starts at 1 and stays positive.
\<close>

function reduce_inner ::
  "nat \<Rightarrow> nat \<Rightarrow> nat \<Rightarrow> PartitionIndices list \<times> 'a list \<Rightarrow> PartitionIndices list \<times> 'a list" where
  "reduce_inner j T i s =
     (if i + j < T \<and> 0 < j then
        (let (r, xs') = pi_plus (fst s ! i) (fst s ! (i + j)) (snd s)
         in reduce_inner j T (i + j * 2) ((fst s)[i := r], xs'))
      else s)"
  by pat_completeness auto
termination
  by (relation "measure (\<lambda>(j, T, i, s). T - i)") auto

declare reduce_inner.simps [simp del]

function reduce_outer ::
  "nat \<Rightarrow> nat \<Rightarrow> PartitionIndices list \<times> 'a list \<Rightarrow> PartitionIndices list \<times> 'a list" where
  "reduce_outer j T s =
     (if j < T \<and> 0 < j then reduce_outer (2 * j) T (reduce_inner j T 0 s) else s)"
  by pat_completeness auto
termination
  by (relation "measure (\<lambda>(j, T, s). T - j)") auto

declare reduce_outer.simps [simp del]

text \<open>
  \<^verbatim>\<open>partition(B, E, P, omp_parallel_tag)\<close>. The source reads two thread counts:
  \<open>num_threads\<close> is \<^verbatim>\<open>omp_get_max_threads()\<close>, which sizes \<^verbatim>\<open>indices\<close> (every entry
  starts as begin \<open>B\<close>, end \<open>E\<close>, pivot \<open>E\<close>) and bounds the reduction; \<open>team\<close> is
  \<^verbatim>\<open>omp_get_num_threads()\<close> inside the parallel region, the size of the team that
  partitions the slices. The runtime may give a team smaller than the maximum, never a
  larger one, so \<^verbatim>\<open>indices[threadnum]\<close> exists for every thread of the team. The
  result is the returned pivot \<^verbatim>\<open>indices[0].pivot\<close> and the reordered sequence.
\<close>

definition partition_omp ::
  "(('a \<Rightarrow> bool) \<Rightarrow> 'a list \<Rightarrow> 'a list) \<Rightarrow> nat \<Rightarrow> nat \<Rightarrow> ('a \<Rightarrow> bool) \<Rightarrow> 'a list \<Rightarrow> nat \<times> 'a list" where
  "partition_omp sp num_threads team P xs =
     (let indices0 = replicate num_threads \<lparr> pi_begin = 0, pi_end = length xs, pi_pivot = length xs \<rparr>;
          s1 = fold (local_partition sp team P) [0 ..< team] (indices0, xs);
          s2 = reduce_outer 1 num_threads s1
      in (pi_pivot (fst s2 ! 0), snd s2))"

text \<open>A concrete \<^verbatim>\<open>std::partition\<close> that meets the contract (the stable one).\<close>

definition stable_partition :: "('a \<Rightarrow> bool) \<Rightarrow> 'a list \<Rightarrow> 'a list" where
  "stable_partition P xs = filter P xs @ filter (\<lambda>x. \<not> P x) xs"


section \<open>Greedy selection on the raw pool (find_most_influential.h)\<close>

text \<open>
  The execution policy: \<^verbatim>\<open>sequential_tag\<close>, or \<^verbatim>\<open>omp_parallel_tag\<close> together with
  the two thread counts the OpenMP code reads: \<^verbatim>\<open>omp_get_max_threads()\<close> and the size
  of the team that runs a parallel region (\<^verbatim>\<open>omp_get_num_threads()\<close>).
\<close>

datatype execution_tag = sequential_tag | omp_parallel_tag nat nat

text \<open>
  \<^verbatim>\<open>std::lower_bound\<close> and \<^verbatim>\<open>std::upper_bound\<close> on the range \<open>[first, first + len)\<close>
  of \<open>a\<close>, by bisection as the standard library computes them, and
  \<^verbatim>\<open>std::binary_search\<close>, which is \<^verbatim>\<open>lower_bound\<close> followed by a comparison.
\<close>

function lower_bound :: "nat list \<Rightarrow> nat \<Rightarrow> nat \<Rightarrow> nat \<Rightarrow> nat" where
  "lower_bound a first len v =
     (if 0 < len then
        (let half = len div 2; mid = first + half in
         if a ! mid < v then lower_bound a (mid + 1) (len - half - 1) v
         else lower_bound a first half v)
      else first)"
  by pat_completeness auto
termination
  by (relation "measure (\<lambda>(a, first, len, v). len)") auto

declare lower_bound.simps [simp del]

function upper_bound :: "nat list \<Rightarrow> nat \<Rightarrow> nat \<Rightarrow> nat \<Rightarrow> nat" where
  "upper_bound a first len v =
     (if 0 < len then
        (let half = len div 2; mid = first + half in
         if \<not> v < a ! mid then upper_bound a (mid + 1) (len - half - 1) v
         else upper_bound a first half v)
      else first)"
  by pat_completeness auto
termination
  by (relation "measure (\<lambda>(a, first, len, v). len)") auto

declare upper_bound.simps [simp del]

definition binary_search :: "nat list \<Rightarrow> nat \<Rightarrow> bool" where
  "binary_search a v =
     (let i = lower_bound a 0 (length a) v in i \<noteq> length a \<and> \<not> v < a ! i)"

text \<open>
  \<^verbatim>\<open>CountOccurrencies\<close>. Sequentially every vertex of every RR set is counted. In a
  team of \<open>T\<close> threads, thread \<open>t\<close> counts, in every RR set, the vertices between
  \<^verbatim>\<open>lower_bound(low)\<close> and \<^verbatim>\<open>upper_bound(high - 1)\<close>, where \<^verbatim>\<open>high - 1\<close> is computed
  in the unsigned 32-bit vertex type and wraps to \<open>2^32 - 1\<close> when \<^verbatim>\<open>high\<close> is 0. The
  counters are \<^verbatim>\<open>uint32_t\<close>; a pool has fewer than \<open>2^32\<close> RR sets, so the increments
  are written without the wrap-around.
\<close>

definition count_clipped :: "nat \<Rightarrow> nat \<Rightarrow> nat list \<Rightarrow> nat list \<Rightarrow> nat list" where
  "count_clipped low high1 R out =
     (let b = lower_bound R 0 (length R) low;
          e = upper_bound R b (length R - b) high1
      in tally (take (e - b) (drop b R)) out)"

definition count_thread :: "nat \<Rightarrow> nat \<Rightarrow> nat list list \<Rightarrow> nat list \<Rightarrow> nat list" where
  "count_thread T threadnum RRRsets out =
     (let num_elements = length out;
          low = num_elements * threadnum div T;
          high = num_elements * (threadnum + 1) div T;
          high1 = (if high = 0 then 2 ^ 32 - 1 else high - 1)
      in fold (count_clipped low high1) RRRsets out)"

definition CountOccurrencies :: "execution_tag \<Rightarrow> nat list list \<Rightarrow> nat list \<Rightarrow> nat list" where
  "CountOccurrencies tag RRRsets out =
     (case tag of
        sequential_tag \<Rightarrow> fold tally RRRsets out
      | omp_parallel_tag num_threads team \<Rightarrow>
          fold (\<lambda>t out. count_thread team t RRRsets out) [0 ..< team] out)"

text \<open>\<^verbatim>\<open>InitHeapStorage\<close>: entry \<open>v\<close> is the pair of \<open>v\<close> and its counter.\<close>

definition InitHeapStorage :: "nat list \<Rightarrow> (nat \<times> nat) list" where
  "InitHeapStorage vertexCoverage = map (\<lambda>v. (v, vertexCoverage ! v)) [0 ..< length vertexCoverage]"

text \<open>
  \<^verbatim>\<open>UpdateCounters\<close>: \<^verbatim>\<open>vertexCoverage[v] -= 1\<close> for every vertex of every RR set of
  the range, in \<^verbatim>\<open>uint32_t\<close>.
\<close>

definition dec_counter :: "nat \<Rightarrow> nat list \<Rightarrow> nat list" where
  "dec_counter v cov = cov[v := (if cov ! v = 0 then 2 ^ 32 - 1 else cov ! v - 1)]"

definition UpdateCounters :: "nat list list \<Rightarrow> nat list \<Rightarrow> nat list" where
  "UpdateCounters Rs vertexCoverage = fold (\<lambda>R cov. fold dec_counter R cov) Rs vertexCoverage"

text \<open>
  \<^verbatim>\<open>std::priority_queue\<close> over pairs (vertex, coverage) with the comparison
  \<^verbatim>\<open>a.second < b.second\<close> is a parameter of the model: its operations, and the contract
  the standard gives them in terms of the multiset \<open>\<alpha> q\<close> of entries of a queue \<open>q\<close> that
  satisfies the implementation's invariant. The top is an entry that no other entry
  exceeds in coverage; which of several such entries it is, the comparison leaves open.
\<close>

record 'q pq_ops =
  pq_make :: "(nat \<times> nat) list \<Rightarrow> 'q"
  pq_size :: "'q \<Rightarrow> nat"
  pq_top :: "'q \<Rightarrow> nat \<times> nat"
  pq_pop :: "'q \<Rightarrow> 'q"
  pq_push :: "nat \<times> nat \<Rightarrow> 'q \<Rightarrow> 'q"

definition pq_contract :: "'q pq_ops \<Rightarrow> ('q \<Rightarrow> bool) \<Rightarrow> ('q \<Rightarrow> (nat \<times> nat) multiset) \<Rightarrow> bool" where
  "pq_contract ops qinv \<alpha> =
     ((\<forall>xs. qinv (pq_make ops xs) \<and> \<alpha> (pq_make ops xs) = mset xs) \<and>
      (\<forall>q. qinv q \<longrightarrow> pq_size ops q = size (\<alpha> q)) \<and>
      (\<forall>q. qinv q \<and> \<alpha> q \<noteq> {#} \<longrightarrow>
           pq_top ops q \<in># \<alpha> q \<and> (\<forall>e \<in># \<alpha> q. snd e \<le> snd (pq_top ops q))) \<and>
      (\<forall>q. qinv q \<and> \<alpha> q \<noteq> {#} \<longrightarrow>
           qinv (pq_pop ops q) \<and> \<alpha> (pq_pop ops q) = \<alpha> q - {#pq_top ops q#}) \<and>
      (\<forall>q e. qinv q \<longrightarrow> qinv (pq_push ops e q) \<and> \<alpha> (pq_push ops e q) = \<alpha> q + {#e#}))"

text \<open>\<^verbatim>\<open>partition\<close> under the execution policy: the returned iterator and the sequence.\<close>

definition partition_tag ::
  "(('a \<Rightarrow> bool) \<Rightarrow> 'a list \<Rightarrow> 'a list) \<Rightarrow> execution_tag \<Rightarrow> ('a \<Rightarrow> bool) \<Rightarrow> 'a list \<Rightarrow> nat \<times> 'a list" where
  "partition_tag sp tag P xs =
     (case tag of
        sequential_tag \<Rightarrow> (length (filter P xs), sp P xs)
      | omp_parallel_tag num_threads team \<Rightarrow> partition_omp sp num_threads team P xs)"

text \<open>Subtraction in \<^verbatim>\<open>size_t\<close>.\<close>

definition size_t_minus :: "nat \<Rightarrow> nat \<Rightarrow> nat" where
  "size_t_minus a b = (if b \<le> a then a - b else 2 ^ 64 - (b - a))"

text \<open>
  The state of the selection loop of \<^verbatim>\<open>FindMostInfluentialSet\<close>: the queue, the
  counters, the pool (reordered in place by \<^verbatim>\<open>partition\<close>), the offset of \<^verbatim>\<open>end\<close>
  in it, \<^verbatim>\<open>uncovered\<close> and \<^verbatim>\<open>result\<close>.
\<close>

record 'q sel_state =
  s_queue :: 'q
  s_vertexCoverage :: "nat list"
  s_RRRsets :: "nat list list"
  s_end :: nat
  s_uncovered :: nat
  s_result :: "nat list"

text \<open>
  One iteration of the \<^verbatim>\<open>while\<close> loop. Taking the top of an empty queue, or reading a
  counter outside the vector, is \<open>None\<close>.
\<close>

definition sel_step ::
  "'q pq_ops \<Rightarrow> ((nat list \<Rightarrow> bool) \<Rightarrow> nat list list \<Rightarrow> nat list list) \<Rightarrow> execution_tag \<Rightarrow>
   'q sel_state \<Rightarrow> 'q sel_state option" where
  "sel_step ops sp tag s =
     (if pq_size ops (s_queue s) = 0 then None
      else
        (let element = pq_top ops (s_queue s);
             q1 = pq_pop ops (s_queue s);
             cov = s_vertexCoverage s in
         if \<not> fst element < length cov then None
         else if snd element > cov ! fst element then
           Some (s\<lparr>s_queue := pq_push ops (fst element, cov ! fst element) q1\<rparr>)
         else
           (let uncovered' = size_t_minus (s_uncovered s) (snd element);
                cmp = (\<lambda>a. \<not> binary_search a (fst element));
                (itr, live) = partition_tag sp tag cmp (take (s_end s) (s_RRRsets s));
                RRRsets' = live @ drop (s_end s) (s_RRRsets s);
                cov' = (if int (s_end s) - int itr < int itr
                        then UpdateCounters (take (s_end s - itr) (drop itr RRRsets')) cov
                        else CountOccurrencies tag (take itr RRRsets') (replicate (length cov) 0))
            in Some \<lparr> s_queue = q1, s_vertexCoverage = cov', s_RRRsets = RRRsets',
                      s_end = itr, s_uncovered = uncovered',
                      s_result = s_result s @ [fst element] \<rparr>)))"

text \<open>
  \<^verbatim>\<open>while (result.size() < k && uncovered != 0)\<close>. A run that does not leave the loop
  has no result, like one that fails.
\<close>

partial_function (option) sel_loop ::
  "'q pq_ops \<Rightarrow> ((nat list \<Rightarrow> bool) \<Rightarrow> nat list list \<Rightarrow> nat list list) \<Rightarrow> execution_tag \<Rightarrow>
   nat \<Rightarrow> 'q sel_state \<Rightarrow> 'q sel_state option" where
  "sel_loop ops sp tag k s =
     (if length (s_result s) < k \<and> s_uncovered s \<noteq> 0
      then Option.bind (sel_step ops sp tag s) (sel_loop ops sp tag k)
      else Some s)"

declare sel_loop.simps [code]

text \<open>
  \<^verbatim>\<open>FindMostInfluentialSet(G, k, RRRsets, ex_tag)\<close> for a graph of \<open>n\<close> vertices.
  \<open>sel_run\<close> is the state in which the loop ends; the function returns the pair of
  \<^verbatim>\<open>double(RRRsets.size() - uncovered) / RRRsets.size()\<close> and \<^verbatim>\<open>result\<close>.
\<close>

definition sel_init :: "'q pq_ops \<Rightarrow> execution_tag \<Rightarrow> nat \<Rightarrow> nat list list \<Rightarrow> 'q sel_state" where
  "sel_init ops tag n RRRsets =
     (let vertexCoverage = CountOccurrencies tag RRRsets (replicate n 0);
          queue_storage = InitHeapStorage vertexCoverage
      in \<lparr> s_queue = pq_make ops queue_storage, s_vertexCoverage = vertexCoverage,
           s_RRRsets = RRRsets, s_end = length RRRsets, s_uncovered = length RRRsets,
           s_result = [] \<rparr>)"

definition sel_run ::
  "'q pq_ops \<Rightarrow> ((nat list \<Rightarrow> bool) \<Rightarrow> nat list list \<Rightarrow> nat list list) \<Rightarrow> execution_tag \<Rightarrow>
   nat \<Rightarrow> nat \<Rightarrow> nat list list \<Rightarrow> 'q sel_state option" where
  "sel_run ops sp tag n k RRRsets = sel_loop ops sp tag k (sel_init ops tag n RRRsets)"

definition FindMostInfluentialSet ::
  "'q pq_ops \<Rightarrow> ((nat list \<Rightarrow> bool) \<Rightarrow> nat list list \<Rightarrow> nat list list) \<Rightarrow> execution_tag \<Rightarrow>
   nat \<Rightarrow> nat \<Rightarrow> nat list list \<Rightarrow> (fraction \<times> nat list) option" where
  "FindMostInfluentialSet ops sp tag n k RRRsets =
     map_option
       (\<lambda>s. (ddiv (size_t_minus (length RRRsets) (s_uncovered s)) (length RRRsets), s_result s))
       (sel_run ops sp tag n k RRRsets)"

text \<open>
  Two priority queues that meet the contract, kept as the list of their entries: the top
  is an entry of maximal coverage, and among those the one with the smallest vertex
  (\<open>pq_small\<close>) or the largest vertex (\<open>pq_large\<close>).
\<close>

fun top_by :: "(nat \<times> nat \<Rightarrow> nat \<times> nat \<Rightarrow> bool) \<Rightarrow> (nat \<times> nat) list \<Rightarrow> nat \<times> nat" where
  "top_by better [] = (0, 0)"
| "top_by better [e] = e"
| "top_by better (e # es) = (let b = top_by better es in if better e b then e else b)"

definition better_small :: "nat \<times> nat \<Rightarrow> nat \<times> nat \<Rightarrow> bool" where
  "better_small a b = (snd a > snd b \<or> (snd a = snd b \<and> fst a \<le> fst b))"


definition list_pq :: "(nat \<times> nat \<Rightarrow> nat \<times> nat \<Rightarrow> bool) \<Rightarrow> (nat \<times> nat) list pq_ops" where
  "list_pq better =
     \<lparr> pq_make = (\<lambda>xs. xs), pq_size = length, pq_top = top_by better,
       pq_pop = (\<lambda>q. remove1 (top_by better q) q), pq_push = (\<lambda>e q. e # q) \<rparr>"

definition pq_small :: "(nat \<times> nat) list pq_ops" where
  "pq_small = list_pq better_small"


section \<open>Which vertices are encoded\<close>

text \<open>
  Bit \<open>i\<close> of the stream in a buffer, as the decoders read it: byte \<open>i div 8\<close>, most
  significant bit first.
\<close>

definition stream_bit :: "8 word list \<Rightarrow> nat \<Rightarrow> bool" where
  "stream_bit buf i = bit (buf ! (i div 8)) (7 - i mod 8)"

lemma stream_bit_update_other:
  "i div 8 \<noteq> k \<Longrightarrow> stream_bit (buf[k := x]) i = stream_bit buf i"
  by (simp add: stream_bit_def)

lemma stream_bit_update_same:
  "i div 8 = k \<Longrightarrow> k < length buf \<Longrightarrow> stream_bit (buf[k := x]) i = bit x (7 - i mod 8)"
  by (simp add: stream_bit_def)

lemma bit_byte_of:
  "n < 8 \<Longrightarrow> bit (ucast (drop_bit s (w :: 64 word)) :: 8 word) n = bit w (s + n)"
  by (simp add: bit_ucast_iff bit_drop_bit_eq)

text \<open>
  \<^verbatim>\<open>longToBytes_bigEndian\<close> at byte \<open>b\<close> writes the 64 bits of \<open>num\<close>, most significant
  first, at the stream positions \<open>8 * b, \<dots>, 8 * b + 63\<close>.
\<close>

lemma longToBytes_stream:
  assumes "longToBytes_bigEndian b num buf = Some buf'"
  shows "length buf' = length buf"
    and "stream_bit buf' i =
          (if 8 * b \<le> i \<and> i < 8 * b + 64 then bit num (63 - (i - 8 * b)) else stream_bit buf i)"
proof -
  from assms have len: "b + 8 \<le> length buf"
    and eq: "buf' = buf[b := ucast (drop_bit 56 num), b + 1 := ucast (drop_bit 48 num),
                  b + 2 := ucast (drop_bit 40 num), b + 3 := ucast (drop_bit 32 num),
                  b + 4 := ucast (drop_bit 24 num), b + 5 := ucast (drop_bit 16 num),
                  b + 6 := ucast (drop_bit 8 num), b + 7 := ucast num]"
    by (auto simp: longToBytes_bigEndian_def split: if_splits)
  show "length buf' = length buf" by (simp add: eq)
  have m: "7 - i mod 8 < 8" by simp
  have dm: "i = 8 * (i div 8) + i mod 8" "i mod 8 < 8" by simp_all
  have u: "bit (ucast num :: 8 word) (7 - i mod 8) = bit num (7 - i mod 8)"
    using bit_byte_of [OF m, of 0 num] by simp
  consider (out) "i div 8 < b \<or> b + 8 \<le> i div 8"
    | (0) "i div 8 = b" | (1) "i div 8 = b + 1" | (2) "i div 8 = b + 2" | (3) "i div 8 = b + 3"
    | (4) "i div 8 = b + 4" | (5) "i div 8 = b + 5" | (6) "i div 8 = b + 6" | (7) "i div 8 = b + 7"
    by linarith
  then show "stream_bit buf' i =
          (if 8 * b \<le> i \<and> i < 8 * b + 64 then bit num (63 - (i - 8 * b)) else stream_bit buf i)"
  proof cases
    case out
    then have "\<not> (8 * b \<le> i \<and> i < 8 * b + 64)" using dm by linarith
    moreover have "buf' ! (i div 8) = buf ! (i div 8)"
      using out unfolding eq by auto
    ultimately show ?thesis by (auto simp: stream_bit_def)
  next
    case 0
    then have r: "8 * b \<le> i \<and> i < 8 * b + 64" and a: "63 - (i - 8 * b) = 56 + (7 - i mod 8)"
      using dm by linarith+
    have "buf' ! (i div 8) = ucast (drop_bit 56 num)"
      using 0 len unfolding eq by simp
    then show ?thesis using r a bit_byte_of [OF m] by (simp add: stream_bit_def)
  next
    case 1
    then have r: "8 * b \<le> i \<and> i < 8 * b + 64" and a: "63 - (i - 8 * b) = 48 + (7 - i mod 8)"
      using dm by linarith+
    have "buf' ! (i div 8) = ucast (drop_bit 48 num)"
      using 1 len unfolding eq by simp
    then show ?thesis using r a bit_byte_of [OF m] by (simp add: stream_bit_def)
  next
    case 2
    then have r: "8 * b \<le> i \<and> i < 8 * b + 64" and a: "63 - (i - 8 * b) = 40 + (7 - i mod 8)"
      using dm by linarith+
    have "buf' ! (i div 8) = ucast (drop_bit 40 num)"
      using 2 len unfolding eq by simp
    then show ?thesis using r a bit_byte_of [OF m] by (simp add: stream_bit_def)
  next
    case 3
    then have r: "8 * b \<le> i \<and> i < 8 * b + 64" and a: "63 - (i - 8 * b) = 32 + (7 - i mod 8)"
      using dm by linarith+
    have "buf' ! (i div 8) = ucast (drop_bit 32 num)"
      using 3 len unfolding eq by simp
    then show ?thesis using r a bit_byte_of [OF m] by (simp add: stream_bit_def)
  next
    case 4
    then have r: "8 * b \<le> i \<and> i < 8 * b + 64" and a: "63 - (i - 8 * b) = 24 + (7 - i mod 8)"
      using dm by linarith+
    have "buf' ! (i div 8) = ucast (drop_bit 24 num)"
      using 4 len unfolding eq by simp
    then show ?thesis using r a bit_byte_of [OF m] by (simp add: stream_bit_def)
  next
    case 5
    then have r: "8 * b \<le> i \<and> i < 8 * b + 64" and a: "63 - (i - 8 * b) = 16 + (7 - i mod 8)"
      using dm by linarith+
    have "buf' ! (i div 8) = ucast (drop_bit 16 num)"
      using 5 len unfolding eq by simp
    then show ?thesis using r a bit_byte_of [OF m] by (simp add: stream_bit_def)
  next
    case 6
    then have r: "8 * b \<le> i \<and> i < 8 * b + 64" and a: "63 - (i - 8 * b) = 8 + (7 - i mod 8)"
      using dm by linarith+
    have "buf' ! (i div 8) = ucast (drop_bit 8 num)"
      using 6 len unfolding eq by simp
    then show ?thesis using r a bit_byte_of [OF m] by (simp add: stream_bit_def)
  next
    case 7
    then have r: "8 * b \<le> i \<and> i < 8 * b + 64" and a: "63 - (i - 8 * b) = 7 - i mod 8"
      using dm by linarith+
    have "buf' ! (i div 8) = ucast num"
      using 7 len unfolding eq by simp
    then show ?thesis using r a u by (simp add: stream_bit_def)
  qed
qed

text \<open>
  The number of bits in the stream: whole bytes before \<^verbatim>\<open>p\<close> and the used part of
  \<^verbatim>\<open>*p\<close>.
\<close>

definition bits_written :: "enc_state \<Rightarrow> nat" where
  "bits_written st = 8 * e_p st + (if e_lackBits st = 0 then 0 else 8 - e_lackBits st)"

lemma bit_high_zero:
  assumes "take_bit (64 - L) (w :: 64 word) = 0" "L \<le> j" "j < 64"
  shows "\<not> bit w (63 - j)"
proof -
  have "63 - j < 64 - L"
    using assms(2,3) by linarith
  then have "bit (take_bit (64 - L) w) (63 - j) = bit w (63 - j)"
    by (simp add: bit_take_bit_iff)
  with assms(1) show ?thesis by simp
qed

text \<open>
  \<^verbatim>\<open>*p = (*p) | (unsigned char)(code[0] >> (64 - lackBits))\<close> writes the first
  \<open>lackBits\<close> bits of the code into the unused low bits of \<^verbatim>\<open>*p\<close>, provided these
  are zero.
\<close>

lemma or_byte_stream:
  assumes k: "0 < k" "k < 8" and p: "p < length buf"
    and z: "\<And>i. 8 * p + 8 - k \<le> i \<Longrightarrow> i < 8 * p + 8 \<Longrightarrow> \<not> stream_bit buf i"
  shows "stream_bit (buf[p := buf ! p OR ucast (drop_bit (64 - k) (w :: 64 word))]) i =
           (if 8 * p + 8 - k \<le> i \<and> i < 8 * p + 8 then bit w (63 - (i - (8 * p + 8 - k)))
            else stream_bit buf i)"
proof (cases "i div 8 = p")
  case False
  have dm: "i = 8 * (i div 8) + i mod 8" "i mod 8 < 8" by simp_all
  have "\<not> (8 * p + 8 - k \<le> i \<and> i < 8 * p + 8)"
    using False k dm by linarith
  with False show ?thesis by (auto simp: stream_bit_update_other)
next
  case True
  have dm: "i = 8 * (i div 8) + i mod 8" "i mod 8 < 8" by simp_all
  have m: "7 - i mod 8 < 8" by simp
  have s: "stream_bit (buf[p := buf ! p OR ucast (drop_bit (64 - k) w)]) i =
             (stream_bit buf i \<or> bit w (64 - k + (7 - i mod 8)))"
    using True p bit_byte_of [OF m, of "64 - k" w]
    by (simp add: stream_bit_def bit_or_iff)
  show ?thesis
  proof (cases "8 * p + 8 - k \<le> i")
    case T2: True
    have lt: "i < 8 * p + 8" using True dm by linarith
    have a: "64 - k + (7 - i mod 8) = 63 - (i - (8 * p + 8 - k))"
      using True dm T2 k by linarith
    show ?thesis using s z [OF T2 lt] T2 lt a by simp
  next
    case F2: False
    have "64 \<le> 64 - k + (7 - i mod 8)"
      using True dm F2 k by linarith
    then have "\<not> bit w (64 - k + (7 - i mod 8))"
      using bit_imp_le_length [of w "64 - k + (7 - i mod 8)"] by auto
    with s F2 show ?thesis by simp
  qed
qed

text \<open>
  The block that appends a code of \<open>L \<le> 64\<close> bits: if the buffer is zero from the write
  position on and has room for the eight-byte write, the block succeeds, writes the
  first \<open>L\<close> bits of the code at the write position and changes no other bit.
\<close>

lemma putCode_stream:
  fixes cd :: "64 word \<times> 64 word"
  assumes k: "e_lackBits st < 8" and L: "0 < L" "L \<le> 64"
    and tz: "take_bit (64 - L) (fst cd) = 0"
    and room: "bits_written st + 64 \<le> 8 * length (e_out st)"
    and z: "\<And>i. bits_written st \<le> i \<Longrightarrow> i < 8 * length (e_out st) \<Longrightarrow> \<not> stream_bit (e_out st) i"
  shows "\<exists>st'. putCode cd L st = Some st' \<and> length (e_out st') = length (e_out st) \<and>
           (\<forall>i < 8 * length (e_out st). stream_bit (e_out st') i =
              (if bits_written st \<le> i \<and> i < bits_written st + L
               then bit (fst cd) (63 - (i - bits_written st)) else stream_bit (e_out st) i))"
proof -
  define w where "w = fst cd"
  define N where "N = bits_written st"
  define p where "p = e_p st"
  define out where "out = e_out st"
  note hz = bit_high_zero [OF tz [folded w_def]]
  show ?thesis
  proof (cases "e_lackBits st = 0")
    case True
    have N: "N = 8 * p" by (simp add: N_def bits_written_def True p_def)
    have bs: "byteSize_of L \<le> 8"
      using L(2) unfolding byteSize_of_def by presburger
    have "p + 8 \<le> length out"
      using room N by (simp add: N_def [symmetric] out_def [symmetric])
    then obtain buf where lb: "longToBytes_bigEndian p w out = Some buf"
      by (simp add: longToBytes_bigEndian_def)
    note l = longToBytes_stream [OF lb]
    define st' where "st' = st\<lparr> e_out := buf, e_p := p + L div 8,
                          e_encodeSize := e_encodeSize st + byteSize_of L,
                          e_lackBits := lackBits_of L \<rparr>"
    have pc: "putCode cd L st = Some st'"
      using True bs lb by (simp add: putCode_def Let_def st'_def p_def out_def w_def)
    have "stream_bit buf i =
              (if N \<le> i \<and> i < N + L then bit w (63 - (i - N)) else stream_bit out i)"
      if i: "i < 8 * length out" for i
    proof (cases "N \<le> i \<and> i < N + 64")
      case T2: True
      show ?thesis
      proof (cases "i < N + L")
        case True
        with T2 l(2) [of i] N show ?thesis by simp
      next
        case False
        then have "\<not> bit w (63 - (i - N))"
          using T2 by (intro hz) linarith+
        moreover have "\<not> stream_bit out i"
          using z [of i] T2 i by (simp add: N_def out_def)
        ultimately show ?thesis
          using T2 l(2) [of i] N False by simp
      qed
    next
      case False
      then have "\<not> (N \<le> i \<and> i < N + L)" using L(2) by linarith
      with False l(2) [of i] N show ?thesis by auto
    qed
    then show ?thesis
      using pc l(1) by (simp add: st'_def N_def w_def out_def)
  next
    case False
    then have k0: "0 < e_lackBits st" by simp
    define k where "k = e_lackBits st"
    have N: "N = 8 * p + 8 - k"
      using False k by (simp add: N_def bits_written_def p_def k_def)
    have kk: "0 < k" "k < 8" using k0 k by (simp_all add: k_def)
    have pl: "p + 9 \<le> length out"
      using room N kk by (simp add: N_def [symmetric] out_def [symmetric])
    then have p: "p < length out" by simp
    define buf1 where "buf1 = out[p := out ! p OR ucast (drop_bit (64 - k) w)]"
    have zz: "\<not> stream_bit out i" if "8 * p + 8 - k \<le> i" "i < 8 * p + 8" for i
      using z [of i] that N p by (simp add: N_def [symmetric] out_def [symmetric])
    note o = or_byte_stream [OF kk p zz, of w, folded buf1_def N]
    have l1: "length buf1 = length out" by (simp add: buf1_def)
    show ?thesis
    proof (cases "k < L")
      case True
      have "p + 1 + 8 \<le> length buf1" using pl l1 by simp
      then obtain buf2 where lb: "longToBytes_bigEndian (p + 1) (push_bit k w) buf1 = Some buf2"
        by (simp add: longToBytes_bigEndian_def)
      note l = longToBytes_stream [OF lb]
      define st' where "st' = st\<lparr> e_out := buf2, e_p := p + 1 + (L - k) div 8,
                                e_encodeSize := e_encodeSize st + byteSize_of (L - k),
                                e_lackBits := lackBits_of (L - k) \<rparr>"
      have pc: "putCode cd L st = Some st'"
        using False True p lb L(2)
        by (simp add: putCode_def Let_def st'_def p_def [symmetric] out_def [symmetric]
            w_def [symmetric] k_def [symmetric] buf1_def [symmetric])
      have "stream_bit buf2 i =
              (if N \<le> i \<and> i < N + L then bit w (63 - (i - N)) else stream_bit out i)"
        if i: "i < 8 * length out" for i
      proof (cases "8 * (p + 1) \<le> i \<and> i < 8 * (p + 1) + 64")
        case T2: True
        define j where "j = i - N"
        have Nk: "N + k = 8 * (p + 1)" "8 * (p + 1) \<le> i"
          using T2 N kk by simp_all
        have j: "i = N + j" "k \<le> j" "63 - (i - 8 * (p + 1)) = 63 + k - j"
          unfolding j_def using Nk by linarith+
        have b: "stream_bit buf2 i = bit (push_bit k w) (63 + k - j)"
          using l(2) [of i] T2 j by simp
        have "N \<le> i" using Nk by linarith
        then have no: "\<not> stream_bit out i"
          using z [of i] i by (simp add: N_def out_def)
        show ?thesis
        proof (cases "j < L")
          case True
          then have "j \<le> 63" using L(2) by simp
          then have "k \<le> 63 + k - j" "63 + k - j < 64" "63 + k - j - k = 63 - j"
            using j(2) by linarith+
          then have "bit (push_bit k w) (63 + k - j) = bit w (63 - j)"
            by (simp add: bit_push_bit_iff)
          then show ?thesis using b True j by simp
        next
          case False
          have "\<not> bit (push_bit k w) (63 + k - j)"
          proof (cases "j < 64")
            case True
            then have "\<not> bit w (63 - j)" using False by (intro hz) simp_all
            moreover have "63 + k - j - k = 63 - j" using True by simp
            ultimately show ?thesis by (simp add: bit_push_bit_iff)
          next
            case F3: False
            then have "63 + k - j < k" using kk by linarith
            then show ?thesis by (simp add: bit_push_bit_iff)
          qed
          then show ?thesis using b False j no by simp
        qed
      next
        case F2: False
        have s: "stream_bit buf2 i = stream_bit buf1 i"
          using l(2) [of i] F2 by auto
        show ?thesis
        proof (cases "i < 8 * (p + 1)")
          case True
          then have "i < N + L" "i < 8 * p + 8"
            using N kk \<open>k < L\<close> by simp_all
          then show ?thesis using s o [of i] by auto
        next
          case False
          then have g: "8 * (p + 1) + 64 \<le> i" using F2 by simp
          then have "N + L \<le> i" using N kk L(2) by simp
          then have "\<not> (N \<le> i \<and> i < N + L)" by simp
          moreover have "\<not> (N \<le> i \<and> i < 8 * p + 8)" using g by simp
          ultimately show ?thesis using s o [of i] by auto
        qed
      qed
      then show ?thesis
        using pc l(1) l1 by (simp add: st'_def N_def w_def out_def)
    next
      case F1: False
      define st' where "st' = st\<lparr> e_out := buf1,
                        e_p := (if k - L = 0 then p + 1 else p),
                        e_lackBits := k - L \<rparr>"
      have pc: "putCode cd L st = Some st'"
        using False F1 p
        by (simp add: putCode_def Let_def st'_def p_def [symmetric] out_def [symmetric]
            w_def [symmetric] k_def [symmetric] buf1_def [symmetric])
      have "stream_bit buf1 i =
              (if N \<le> i \<and> i < N + L then bit w (63 - (i - N)) else stream_bit out i)"
        if i: "i < 8 * length out" for i
      proof (cases "N \<le> i \<and> i < 8 * p + 8")
        case T2: True
        show ?thesis
        proof (cases "i < N + L")
          case True
          then show ?thesis using o [of i] T2 by simp
        next
          case False
          then have "\<not> bit w (63 - (i - N))"
            using T2 N kk by (intro hz) linarith+
          moreover have "\<not> stream_bit out i"
            using z [of i] T2 i by (simp add: N_def out_def)
          ultimately show ?thesis using o [of i] T2 False by simp
        qed
      next
        case F2: False
        then have "\<not> (N \<le> i \<and> i < N + L)" using N kk F1 by auto
        then show ?thesis using o [of i] F2 by auto
      qed
      then show ?thesis
        using pc l1 by (simp add: st'_def N_def w_def out_def)
    qed
  qed
qed

lemma putCode_frame:
  "putCode cd b st = Some st' \<Longrightarrow>
     e_code_cnt st' = e_code_cnt st \<and> e_cpy st' = e_cpy st \<and> e_copy_cnt st' = e_copy_cnt st"
  by (auto simp: putCode_def Let_def split: if_splits option.splits)

lemma putCode_bits:
  assumes "putCode cd b st = Some st'" "e_lackBits st < 8" "0 < b" "b \<le> 64"
  shows "bits_written st' = bits_written st + b \<and> e_lackBits st' < 8"
proof (cases "e_lackBits st = 0")
  case True
  have "byteSize_of b \<le> 8"
    using assms(4) unfolding byteSize_of_def by presburger
  with True assms show ?thesis
    by (auto simp: putCode_def bits_written_def Let_def lackBits_of_def
             split: if_splits option.splits)
next
  case False
  show ?thesis
  proof (cases "e_lackBits st < b")
    case True
    with False assms show ?thesis
      by (auto simp: putCode_def bits_written_def Let_def lackBits_of_def
               split: if_splits option.splits)
  next
    case F2: False
    with False assms show ?thesis
      by (auto simp: putCode_def bits_written_def Let_def lackBits_of_def
               split: if_splits option.splits)
  qed
qed

lemma byteSize_of_ceil: "byteSize_of b = (b + 7) div 8"
  unfolding byteSize_of_def by presburger

lemma d8: "(8 * q + x) div 8 = q + x div (8::nat)"
  by simp

lemma putCode_size:
  assumes pc: "putCode cd b st = Some st'" and k: "e_lackBits st < 8" and b: "0 < b" "b \<le> 64"
    and es: "e_encodeSize st = (bits_written st + 7) div 8"
  shows "e_encodeSize st' = (bits_written st' + 7) div 8"
proof -
  have bw: "bits_written st' = bits_written st + b"
    using putCode_bits [OF pc k b] by simp
  show ?thesis
  proof (cases "e_lackBits st = 0")
    case True
    have "byteSize_of b \<le> 8"
      using b(2) unfolding byteSize_of_def by presburger
    with True pc have "e_encodeSize st' = e_encodeSize st + (b + 7) div 8"
      by (auto simp: putCode_def Let_def byteSize_of_ceil split: if_splits option.splits)
    moreover have "bits_written st = 8 * e_p st"
      using True by (simp add: bits_written_def)
    ultimately show ?thesis
      unfolding bw es by (simp add: d8 add.assoc)
  next
    case False
    define kk where "kk = e_lackBits st"
    have k2: "0 < kk" "kk < 8" using False k by (simp_all add: kk_def)
    have N: "bits_written st = 8 * e_p st + 8 - kk"
      using False k by (simp add: bits_written_def kk_def)
    show ?thesis
    proof (cases "kk < b")
      case True
      with False pc have "e_encodeSize st' = e_encodeSize st + (b - kk + 7) div 8"
        by (auto simp: putCode_def Let_def byteSize_of_ceil kk_def split: if_splits option.splits)
      moreover have "8 * e_p st + 8 - kk + 7 = 8 * (e_p st + 1) + (7 - kk)"
        "8 * e_p st + 8 - kk + b + 7 = 8 * (e_p st + 1) + (b - kk + 7)"
        using k2 True by simp_all
      ultimately show ?thesis
        unfolding bw es N using k2 by (simp only: d8) simp
    next
      case F2: False
      with False pc have "e_encodeSize st' = e_encodeSize st"
        by (auto simp: putCode_def Let_def kk_def split: if_splits option.splits)
      moreover have "8 * e_p st + 8 - kk + 7 = 8 * (e_p st + 1) + (7 - kk)"
        "8 * e_p st + 8 - kk + b + 7 = 8 * (e_p st + 1) + (7 - (kk - b))"
        using k2 F2 b by simp_all
      ultimately show ?thesis
        unfolding bw es N using k2 by (simp only: d8) simp
    qed
  qed
qed

text \<open>
  A vertex has a code of at most \<open>m\<close> bits when its recorded length \<^verbatim>\<open>cout[v]\<close> is
  nonzero and at most \<open>m\<close>.
\<close>

definition in_book :: "HuffmanTree \<Rightarrow> nat \<Rightarrow> nat \<Rightarrow> bool" where
  "in_book h m v = (cout h ! v \<noteq> 0 \<and> unat (cout h ! v) \<le> m)"

text \<open>
  The first \<open>L\<close> bits of a code, which is stored left-aligned in \<^verbatim>\<open>code[v][0]\<close>, and
  the code word of a vertex: the first \<^verbatim>\<open>cout[v]\<close> bits of its code.
\<close>

definition code_bits :: "64 word \<times> 64 word \<Rightarrow> nat \<Rightarrow> bool list" where
  "code_bits cd L = map (\<lambda>j. bit (fst cd) (63 - j)) [0 ..< L]"

definition code_word :: "HuffmanTree \<Rightarrow> nat \<Rightarrow> bool list" where
  "code_word h v =
     (case code h ! v of None \<Rightarrow> [] | Some cd \<Rightarrow> code_bits cd (unat (cout h ! v)))"

text \<open>
  The bit stream of an RR set under the cutoff \<open>m\<close>: the code words of the vertices
  in the book, in traversal order.
\<close>

definition stream_of :: "HuffmanTree \<Rightarrow> nat \<Rightarrow> nat list \<Rightarrow> bool list" where
  "stream_of h m R = concat (map (code_word h) (filter (in_book h m) R))"

text \<open>
  A code book is well formed when every vertex with a recorded length of at most 64
  bits has a code whose bits after the recorded length are zero. \<^verbatim>\<open>build_code\<close>
  establishes this (\<open>build_code_book_ok\<close> below) as long as the recorded length, a
  byte, is the depth of the leaf, that is, for trees of height below 256.
\<close>

definition book_ok :: "HuffmanTree \<Rightarrow> bool" where
  "book_ok h =
     (length (code h) = length (cout h) \<and>
      list_all (\<lambda>v. cout h ! v \<noteq> 0 \<and> unat (cout h ! v) \<le> 64 \<longrightarrow>
                  (case code h ! v of
                     None \<Rightarrow> False
                   | Some cd \<Rightarrow> take_bit (64 - unat (cout h ! v)) (fst cd) = 0))
               [0 ..< length (cout h)])"

text \<open>
  The invariant of the encoder loop: the stream holds exactly the bits \<open>bs\<close>, the rest
  of the buffer is zero, and \<^verbatim>\<open>*encodeSize\<close> is the number of bytes the stream
  occupies.
\<close>

definition packed :: "bool list \<Rightarrow> enc_state \<Rightarrow> bool" where
  "packed bs st =
     (e_lackBits st < 8 \<and> bits_written st = length bs \<and>
      (\<forall>i < length bs. stream_bit (e_out st) i = bs ! i) \<and>
      (\<forall>i. length bs \<le> i \<and> i < 8 * length (e_out st) \<longrightarrow> \<not> stream_bit (e_out st) i) \<and>
      e_encodeSize st = (length bs + 7) div 8)"

text \<open>
  What an encoder run over \<open>R\<close> with cutoff \<open>m\<close> leaves: the vertices in the book are
  counted in \<^verbatim>\<open>code_cnt\<close>, and their code words, in traversal order, are the bits of
  the output buffer up to the write position; \<^verbatim>\<open>*encodeSize\<close> is the number of bytes
  these bits occupy; the other vertices are counted in \<^verbatim>\<open>copy_cnt\<close> and, if \<open>keep\<close>,
  are the overflow list in traversal order.
\<close>

definition classified :: "HuffmanTree \<Rightarrow> nat \<Rightarrow> bool \<Rightarrow> nat list \<Rightarrow> enc_state \<Rightarrow> bool" where
  "classified h m keep R st =
     (e_code_cnt st = length (filter (in_book h m) R) \<and>
      bits_written st = length (stream_of h m R) \<and>
      map (stream_bit (e_out st)) [0 ..< bits_written st] = stream_of h m R \<and>
      e_encodeSize st = (bits_written st + 7) div 8 \<and>
      e_copy_cnt st = length (filter (\<lambda>v. \<not> in_book h m v) R) \<and>
      e_cpy st = (if keep then filter (\<lambda>v. \<not> in_book h m v) R else []))"

text \<open>
  The guard of an encoder with cutoff \<open>m\<close>, as a test on \<^verbatim>\<open>bitSize\<close>.
\<close>

definition guard :: "nat \<Rightarrow> nat \<Rightarrow> bool" where
  "guard m bitSize = (bitSize \<le> m \<and> bitSize \<noteq> 0)"

lemma guard_in_book: "guard m (unat (cout h ! v)) = in_book h m v"
  by (auto simp: guard_def in_book_def unat_eq_0)

lemma length_code_bits [simp]: "length (code_bits cd L) = L"
  by (simp add: code_bits_def)

lemma putCode_packed:
  assumes pk: "packed bs st" and L: "0 < L" "L \<le> 64"
    and tz: "take_bit (64 - L) (fst cd) = 0"
    and room: "length bs + 64 \<le> 8 * length (e_out st)"
  shows "\<exists>st'. putCode cd L st = Some st' \<and> packed (bs @ code_bits cd L) st' \<and>
           length (e_out st') = length (e_out st) \<and>
           e_code_cnt st' = e_code_cnt st \<and> e_cpy st' = e_cpy st \<and> e_copy_cnt st' = e_copy_cnt st"
proof -
  have k: "e_lackBits st < 8" and N: "bits_written st = length bs"
    and c: "\<And>i. i < length bs \<Longrightarrow> stream_bit (e_out st) i = bs ! i"
    and z: "\<And>i. length bs \<le> i \<Longrightarrow> i < 8 * length (e_out st) \<Longrightarrow> \<not> stream_bit (e_out st) i"
    and es: "e_encodeSize st = (bits_written st + 7) div 8"
    using pk by (auto simp: packed_def)
  from putCode_stream [OF k L tz, unfolded N, OF room z]
  obtain st' where pc: "putCode cd L st = Some st'"
    and len: "length (e_out st') = length (e_out st)"
    and s: "\<And>i. i < 8 * length (e_out st) \<Longrightarrow> stream_bit (e_out st') i =
              (if length bs \<le> i \<and> i < length bs + L
               then bit (fst cd) (63 - (i - length bs)) else stream_bit (e_out st) i)"
    by blast
  note b = putCode_bits [OF pc k L]
  note e = putCode_size [OF pc k L es]
  have "packed (bs @ code_bits cd L) st'"
    unfolding packed_def
  proof (intro conjI allI impI)
    show "e_lackBits st' < 8" using b by simp
    show "bits_written st' = length (bs @ code_bits cd L)" using b N by simp
    show "e_encodeSize st' = (length (bs @ code_bits cd L) + 7) div 8"
      using e b N by simp
  next
    fix i assume i: "i < length (bs @ code_bits cd L)"
    then have i8: "i < 8 * length (e_out st)" using room L(2) by simp
    show "stream_bit (e_out st') i = (bs @ code_bits cd L) ! i"
    proof (cases "i < length bs")
      case True
      then show ?thesis using s [OF i8] c [OF True] by (simp add: nth_append)
    next
      case False
      then have "i - length bs < L" using i by simp
      then have "code_bits cd L ! (i - length bs) = bit (fst cd) (63 - (i - length bs))"
        by (simp add: code_bits_def)
      then show ?thesis using s [OF i8] False i by (simp add: nth_append)
    qed
  next
    fix i assume "length (bs @ code_bits cd L) \<le> i \<and> i < 8 * length (e_out st')"
    then have i: "length bs + L \<le> i" "i < 8 * length (e_out st)"
      using len by simp_all
    then have "length bs \<le> i" by simp
    from z [OF this i(2)] s [OF i(2)] i(1)
    show "\<not> stream_bit (e_out st') i" by simp
  qed
  with pc len putCode_frame [OF pc] show ?thesis by simp
qed

lemma book_okD:
  assumes "book_ok h" "v < length (cout h)" "in_book h m v" "m \<le> 64"
  shows "\<exists>cd. code h ! v = Some cd \<and> take_bit (64 - unat (cout h ! v)) (fst cd) = 0"
proof -
  have "cout h ! v \<noteq> 0 \<and> unat (cout h ! v) \<le> 64"
    using assms(3,4) by (simp add: in_book_def)
  moreover have "cout h ! v \<noteq> 0 \<and> unat (cout h ! v) \<le> 64 \<longrightarrow>
                  (case code h ! v of
                     None \<Rightarrow> False
                   | Some cd \<Rightarrow> take_bit (64 - unat (cout h ! v)) (fst cd) = 0)"
    using assms(1,2) by (simp add: book_ok_def list_all_iff)
  ultimately show ?thesis by (auto split: option.splits)
qed

lemma enc_step_packed:
  assumes bk: "book_ok h" and m: "m \<le> 64" and v: "v < length (cout h)"
    and pk: "packed bs st" and room: "length bs + 64 \<le> 8 * length (e_out st)"
  shows "\<exists>st'. enc_step h (guard m) keep v st = Some st' \<and>
           packed (bs @ stream_of h m [v]) st' \<and> length (e_out st') = length (e_out st) \<and>
           e_code_cnt st' = e_code_cnt st + length (filter (in_book h m) [v]) \<and>
           e_copy_cnt st' = e_copy_cnt st + length (filter (\<lambda>v. \<not> in_book h m v) [v]) \<and>
           e_cpy st' = e_cpy st @ (if keep then filter (\<lambda>v. \<not> in_book h m v) [v] else [])"
proof (cases "in_book h m v")
  case True
  from book_okD [OF bk v True m] obtain cd where cd: "code h ! v = Some cd"
    and tz: "take_bit (64 - unat (cout h ! v)) (fst cd) = 0" by blast
  define L where "L = unat (cout h ! v)"
  have L: "0 < L" "L \<le> 64" using True m by (auto simp: in_book_def L_def unat_gt_0)
  define st0 where "st0 = st\<lparr>e_code_cnt := e_code_cnt st + 1\<rparr>"
  have "bits_written st0 = bits_written st" by (simp add: st0_def bits_written_def)
  then have pk0: "packed bs st0" using pk by (simp add: packed_def) (simp add: st0_def)
  have room0: "length bs + 64 \<le> 8 * length (e_out st0)" using room by (simp add: st0_def)
  from putCode_packed [OF pk0 L tz [folded L_def] room0]
  obtain st' where pc: "putCode cd L st0 = Some st'" and p': "packed (bs @ code_bits cd L) st'"
    and r: "length (e_out st') = length (e_out st0)"
    "e_code_cnt st' = e_code_cnt st0" "e_cpy st' = e_cpy st0" "e_copy_cnt st' = e_copy_cnt st0"
    by blast
  have "enc_step h (guard m) keep v st = Some st'"
    using True v cd pc by (simp add: enc_step_def guard_in_book Let_def L_def st0_def)
  moreover have "stream_of h m [v] = code_bits cd L"
    using True cd by (simp add: stream_of_def code_word_def L_def)
  ultimately show ?thesis
    using p' r True by (simp add: st0_def)
next
  case False
  define st' where "st' = st\<lparr> e_copy_cnt := e_copy_cnt st + 1,
                     e_cpy := (if keep then e_cpy st @ [v] else e_cpy st) \<rparr>"
  have "enc_step h (guard m) keep v st = Some st'"
    using False v by (simp add: enc_step_def guard_in_book Let_def st'_def)
  moreover have "stream_of h m [v] = []"
    using False by (simp add: stream_of_def)
  moreover have "bits_written st' = bits_written st" by (simp add: st'_def bits_written_def)
  then have "packed bs st'"
    using pk by (simp add: packed_def) (simp add: st'_def)
  ultimately show ?thesis
    using False by (simp add: st'_def)
qed

lemma stream_of_Cons: "stream_of h m (v # vs) = stream_of h m [v] @ stream_of h m vs"
  by (simp add: stream_of_def)

lemma length_stream_of_single: "m \<le> 64 \<Longrightarrow> length (stream_of h m [v]) \<le> 64"
  by (auto simp: stream_of_def code_word_def in_book_def split: option.splits)

lemma enc_loop_packed:
  assumes bk: "book_ok h" and m: "m \<le> 64"
  shows "list_all (\<lambda>v. v < length (cout h)) vs \<Longrightarrow> packed bs st \<Longrightarrow>
         length bs + 64 * length vs \<le> 8 * length (e_out st) \<Longrightarrow>
         \<exists>st'. enc_loop h (guard m) keep vs st = Some st' \<and>
           packed (bs @ stream_of h m vs) st' \<and> length (e_out st') = length (e_out st) \<and>
           e_code_cnt st' = e_code_cnt st + length (filter (in_book h m) vs) \<and>
           e_copy_cnt st' = e_copy_cnt st + length (filter (\<lambda>v. \<not> in_book h m v) vs) \<and>
           e_cpy st' = e_cpy st @ (if keep then filter (\<lambda>v. \<not> in_book h m v) vs else [])"
proof (induction vs arbitrary: bs st)
  case Nil
  then show ?case by (simp add: stream_of_def)
next
  case (Cons v vs)
  have v: "v < length (cout h)" and vs: "list_all (\<lambda>v. v < length (cout h)) vs"
    using Cons.prems(1) by simp_all
  have room: "length bs + 64 \<le> 8 * length (e_out st)"
    using Cons.prems(3) by simp
  from enc_step_packed [OF bk m v Cons.prems(2) room, of keep]
  obtain st1 where s1: "enc_step h (guard m) keep v st = Some st1"
    and p1: "packed (bs @ stream_of h m [v]) st1" and l1: "length (e_out st1) = length (e_out st)"
    and c1: "e_code_cnt st1 = e_code_cnt st + length (filter (in_book h m) [v])"
      "e_copy_cnt st1 = e_copy_cnt st + length (filter (\<lambda>v. \<not> in_book h m v) [v])"
      "e_cpy st1 = e_cpy st @ (if keep then filter (\<lambda>v. \<not> in_book h m v) [v] else [])"
    by blast
  have room1: "length (bs @ stream_of h m [v]) + 64 * length vs \<le> 8 * length (e_out st1)"
    using Cons.prems(3) length_stream_of_single [OF m, of h v] l1 by simp
  from Cons.IH [OF vs p1 room1]
  obtain st' where s': "enc_loop h (guard m) keep vs st1 = Some st'"
    and p': "packed ((bs @ stream_of h m [v]) @ stream_of h m vs) st'"
    and l': "length (e_out st') = length (e_out st1)"
    and c': "e_code_cnt st' = e_code_cnt st1 + length (filter (in_book h m) vs)"
      "e_copy_cnt st' = e_copy_cnt st1 + length (filter (\<lambda>v. \<not> in_book h m v) vs)"
      "e_cpy st' = e_cpy st1 @ (if keep then filter (\<lambda>v. \<not> in_book h m v) vs else [])"
    by blast
  have "enc_loop h (guard m) keep (v # vs) st = Some st'"
    using s1 s' by simp
  moreover have "packed (bs @ stream_of h m (v # vs)) st'"
    using p' by (simp add: stream_of_Cons [of h m v vs])
  ultimately show ?case
    using l' l1 c' c1 by auto
qed

lemma packed_classified:
  assumes "packed (stream_of h m R) st"
    "e_code_cnt st = length (filter (in_book h m) R)"
    "e_copy_cnt st = length (filter (\<lambda>v. \<not> in_book h m v) R)"
    "e_cpy st = (if keep then filter (\<lambda>v. \<not> in_book h m v) R else [])"
  shows "classified h m keep R st"
proof -
  have "map (stream_bit (e_out st)) [0 ..< length (stream_of h m R)] = stream_of h m R"
    using assms(1) by (intro nth_equalityI) (simp_all add: packed_def)
  then show ?thesis
    using assms by (simp add: classified_def packed_def)
qed

lemma enc_loop_classified:
  assumes bk: "book_ok h" and m: "m \<le> 64"
    and R: "list_all (\<lambda>v. v < length (cout h)) R" and n: "8 * length R \<le> n"
  shows "\<exists>st. enc_loop h (guard m) keep R (enc_init (replicate n 0)) = Some st \<and>
           classified h m keep R st"
proof -
  have p0: "packed [] (enc_init (replicate n 0))"
    by (simp add: packed_def enc_init_def bits_written_def stream_bit_def)
  have room: "length ([] :: bool list) + 64 * length R \<le> 8 * length (e_out (enc_init (replicate n 0)))"
    using n by (simp add: enc_init_def)
  from enc_loop_packed [OF bk m R p0 room, of keep]
  obtain st where s: "enc_loop h (guard m) keep R (enc_init (replicate n 0)) = Some st"
    and p: "packed (stream_of h m R) st"
    and c: "e_code_cnt st = length (filter (in_book h m) R)"
      "e_copy_cnt st = length (filter (\<lambda>v. \<not> in_book h m v) R)"
      "e_cpy st = (if keep then filter (\<lambda>v. \<not> in_book h m v) R else [])"
    by (auto simp: enc_init_def)
  from packed_classified [OF p c] s show ?thesis by blast
qed

lemma guard_19: "(\<lambda>bitSize. bitSize < 20 \<and> bitSize \<noteq> 0) = guard 19"
  by (auto simp: guard_def fun_eq_iff)

lemma guard_32: "(\<lambda>bitSize. bitSize \<le> 32 \<and> bitSize \<noteq> 0) = guard 32"
  by (auto simp: guard_def fun_eq_iff)

lemma encodeRR2_loop_enc_loop:
  "enc_loop h (guard 32) True R st = Some st' \<Longrightarrow>
     \<exists>g' mv'. encodeRR2_loop h R (st, g, mv) = Some (st', g', mv')"
proof (induction R arbitrary: st g mv)
  case Nil
  then show ?case by simp
next
  case (Cons v R)
  from Cons.prems obtain st1 where s1: "enc_step h (guard 32) True v st = Some st1"
    and l: "enc_loop h (guard 32) True R st1 = Some st'"
    by (auto split: option.splits)
  from Cons.IH [OF l] s1 show ?case
    unfolding encodeRR2_loop.simps Let_def guard_32 by simp
qed

text \<open>
  The height of a tree, the length of its longest code.
\<close>

fun height :: "node \<Rightarrow> nat" where
  "height (Leaf fr ch) = 0"
| "height (Inner l r fr) = Suc (max (height l) (height r))"

lemma build_code_length:
  "length (code (build_code t len o1 o2 h)) = length (code h) \<and>
   length (cout (build_code t len o1 o2 h)) = length (cout h)"
  by (induction t arbitrary: len o1 o2 h) (simp_all add: Let_def)

lemma case_option_ex:
  "(case x of None \<Rightarrow> False | Some cd \<Rightarrow> P cd) = (\<exists>cd. x = Some cd \<and> P cd)"
  by (cases x) simp_all

lemma find_index_of_le: "find_index_of x R \<le> length R"
  by (induction R) simp_all

lemma set_swap_max_front: "set (swap_max_front mv R) \<subseteq> set R"
proof (cases "find_index_of mv R = length R")
  case True
  then show ?thesis by (simp add: swap_max_front_def)
next
  case False
  then have i: "find_index_of mv R < length R"
    using find_index_of_le [of mv R] by simp
  then have "0 < length R" by (cases R) simp_all
  then have "R ! 0 \<in> set R" "R ! find_index_of mv R \<in> set R"
    using i by simp_all
  then show ?thesis
    using False set_update_subset_insert [of "R[0 := R ! find_index_of mv R]" "find_index_of mv R" "R ! 0"]
      set_update_subset_insert [of R 0 "R ! find_index_of mv R"]
    by (auto simp: swap_max_front_def Let_def)
qed

lemma book_ok_iff:
  "book_ok h = (length (code h) = length (cout h) \<and>
     (\<forall>v < length (cout h). cout h ! v \<noteq> 0 \<and> unat (cout h ! v) \<le> 64 \<longrightarrow>
        (\<exists>cd. code h ! v = Some cd \<and> take_bit (64 - unat (cout h ! v)) (fst cd) = 0)))"
  by (simp add: book_ok_def list_all_iff case_option_ex Ball_def)

text \<open>
  \<^verbatim>\<open>build_code\<close> keeps the code book well formed: a leaf at depth \<open>len \<le> 64\<close> gets
  \<^verbatim>\<open>out1 << (64 - len)\<close>, whose low \<open>64 - len\<close> bits are zero.
\<close>

lemma build_code_book_ok:
  "book_ok h \<Longrightarrow> len + height t < 256 \<Longrightarrow> book_ok (build_code t len o1 o2 h)"
proof (induction t arbitrary: len o1 o2 h)
  case (Leaf fr ch)
  have len: "len < 256" using Leaf.prems(2) by simp
  then have u: "unat (of_nat len :: 8 word) = len"
    by (simp add: unsigned_of_nat take_bit_nat_eq_self)
  show ?case
    unfolding book_ok_iff
  proof (intro conjI allI impI)
    show "length (code (build_code (Leaf fr ch) len o1 o2 h)) = length (cout (build_code (Leaf fr ch) len o1 o2 h))"
      using Leaf.prems(1) by (simp add: book_ok_iff)
  next
    fix v
    assume v: "v < length (cout (build_code (Leaf fr ch) len o1 o2 h))"
      and c: "cout (build_code (Leaf fr ch) len o1 o2 h) ! v \<noteq> 0 \<and>
              unat (cout (build_code (Leaf fr ch) len o1 o2 h) ! v) \<le> 64"
    have vl: "v < length (cout h)" "v < length (code h)"
      using v Leaf.prems(1) by (simp_all add: book_ok_iff)
    show "\<exists>cd. code (build_code (Leaf fr ch) len o1 o2 h) ! v = Some cd \<and>
            take_bit (64 - unat (cout (build_code (Leaf fr ch) len o1 o2 h) ! v)) (fst cd) = 0"
    proof (cases "v = ch")
      case True
      have "len \<le> 64" using c True vl u by simp
      then show ?thesis using True vl u by (simp add: take_bit_push_bit)
    next
      case False
      then show ?thesis using c vl Leaf.prems(1) by (simp add: book_ok_iff)
    qed
  qed
next
  case (Inner l r fr)
  have hl: "len + 1 + height l < 256" and hr: "len + 1 + height r < 256"
    using Inner.prems(2) by simp_all
  show ?case
    using Inner.IH(2) [OF Inner.IH(1) [OF Inner.prems(1) hl] hr]
    by (simp add: Let_def)
qed

lemma book_ok_create: "book_ok (createHuffmanTree n)"
  by (simp add: book_ok_iff createHuffmanTree_def)

text \<open>
  C6 (as amended). Let the code book be well formed, the vertices of the RR set be
  below \<^verbatim>\<open>stateNum\<close>, and the output buffer be zeroed with at least 8 bytes per vertex
  (\<^verbatim>\<open>encodeRRRSets\<close>, \<^verbatim>\<open>encodeRRRSets2\<close> and \<^verbatim>\<open>encodeRRRSets3\<close> allocate and zero
  exactly \<^verbatim>\<open>s2 * sizeof(unsigned long)\<close> bytes). Then every encoder returns, and it
  sends a vertex to the bit stream exactly when its recorded code length is nonzero and
  within the encoder's cutoff: these vertices are counted in \<^verbatim>\<open>code_cnt\<close>, the bits of
  the output buffer up to the write position are their code words in traversal order,
  and \<^verbatim>\<open>*encodeSize\<close> is the number of bytes these bits occupy. The cutoff is 32 bits
  in \<^verbatim>\<open>encodeRR2\<close>, \<^verbatim>\<open>encodeRR3\<close> and \<^verbatim>\<open>encodeRR22\<close>, but 19 bits
  (\<^verbatim>\<open>bitSize<20\<close>) in \<^verbatim>\<open>encodeRR\<close>. Every other vertex is counted in \<^verbatim>\<open>copy_cnt\<close>
  and appended to the overflow list in traversal order, except that \<^verbatim>\<open>encodeRR22\<close>
  with a lossy flag other than \<^verbatim>\<open>"N"\<close> only counts it. \<^verbatim>\<open>encodeRR3\<close> and
  \<^verbatim>\<open>encodeRR22\<close> traverse the RR set after the swap of \<^verbatim>\<open>maxvtx\<close> to the front.
\<close>

theorem encoders_cutoff:
  assumes "book_ok h" and "list_all (\<lambda>v. v < length (cout h)) R" and "8 * length R \<le> n"
  shows "(\<exists>st. encodeRR h R (replicate n 0) = Some st \<and> classified h 19 True R st) \<and>
         (\<exists>st g' mv'. encodeRR2 h R (replicate n 0) g mv = Some (st, g', mv') \<and>
                       classified h 32 True R st) \<and>
         (\<exists>st. encodeRR3 h R (replicate n 0) mv = Some st \<and>
               classified h 32 True (swap_max_front mv R) st) \<and>
         (\<exists>st. encodeRR22 h R (replicate n 0) mv lossyFlag = Some (swap_max_front mv R, st) \<and>
               classified h 32 (lossyFlag = ''N'') (swap_max_front mv R) st)"
proof -
  have m19: "(19 :: nat) \<le> 64" and m32: "(32 :: nat) \<le> 64" by simp_all
  have sl: "length (swap_max_front mv R) = length R"
    by (simp add: swap_max_front_def Let_def)
  have sR: "list_all (\<lambda>v. v < length (cout h)) (swap_max_front mv R)"
    using assms(2) set_swap_max_front [of mv R] by (auto simp: list_all_iff)
  have sn: "8 * length (swap_max_front mv R) \<le> n" using assms(3) sl by simp
  show ?thesis
  proof (intro conjI)
    show "\<exists>st. encodeRR h R (replicate n 0) = Some st \<and> classified h 19 True R st"
      unfolding encodeRR_def guard_19
      by (rule enc_loop_classified [OF assms(1) m19 assms(2,3)])
    from enc_loop_classified [OF assms(1) m32 assms(2,3), of True]
    obtain st where s: "enc_loop h (guard 32) True R (enc_init (replicate n 0)) = Some st"
      and c: "classified h 32 True R st" by blast
    from encodeRR2_loop_enc_loop [OF s, of g mv] c
    show "\<exists>st g' mv'. encodeRR2 h R (replicate n 0) g mv = Some (st, g', mv') \<and>
                       classified h 32 True R st"
      by (auto simp: encodeRR2_def)
    show "\<exists>st. encodeRR3 h R (replicate n 0) mv = Some st \<and>
               classified h 32 True (swap_max_front mv R) st"
      unfolding encodeRR3_def guard_32
      by (rule enc_loop_classified [OF assms(1) m32 sR sn])
    from enc_loop_classified [OF assms(1) m32 sR sn, of "lossyFlag = ''N''"]
    show "\<exists>st. encodeRR22 h R (replicate n 0) mv lossyFlag = Some (swap_max_front mv R, st) \<and>
               classified h 32 (lossyFlag = ''N'') (swap_max_front mv R) st"
      unfolding encodeRR22_def Let_def guard_32 by auto
  qed
qed

lemma leaf_step_book:
  "code (fst (leaf_step fr i s)) = code (fst s) \<and> cout (fst (leaf_step fr i s)) = cout (fst s)"
  by (cases s) (simp add: leaf_step_def new_node_def qinsert_def Let_def split: prod.splits)

lemma fold_leaf_step_book:
  "code (fst (fold (leaf_step fr) is s)) = code (fst s) \<and>
   cout (fst (fold (leaf_step fr) is s)) = cout (fst s)"
  by (induction "is" arbitrary: s) (simp_all add: leaf_step_book)

lemma insert_leaves_book:
  "insert_leaves fr (h, mv, mf) = (h1, mv1, mf1) \<Longrightarrow> code h1 = code h \<and> cout h1 = cout h"
  using fold_leaf_step_book [of fr "[0 ..< length fr]" "(h, mv, mf)"]
  by (simp add: insert_leaves_def)

lemma qremove_book: "qremove h = Some (a, h1) \<Longrightarrow> code h1 = code h \<and> cout h1 = cout h"
  by (auto simp: qremove_def Let_def split: if_splits)

lemma merge_loop_book: "code (merge_loop h) = code h \<and> cout (merge_loop h) = cout h"
proof (induction h rule: merge_loop.induct)
  case (1 h)
  show ?case
  proof (cases "qend h > 2")
    case False
    then show ?thesis by (subst (1 2) merge_loop.simps) simp
  next
    case True
    show ?thesis
    proof (cases "qremove h")
      case None
      with True show ?thesis by (subst (1 2) merge_loop.simps) simp
    next
      case (Some r1)
      obtain b h1 where r1: "r1 = (b, h1)" by (cases r1)
      show ?thesis
      proof (cases "qremove h1")
        case None
        with True Some r1 qremove_book [of h b h1] show ?thesis
          by (subst (1 2) merge_loop.simps) simp
      next
        case S2: (Some r2)
        obtain a h2 where r2: "r2 = (a, h2)" by (cases r2)
        obtain n h3 where nn: "new_node h2 0 0 a b = (n, h3)" by (cases "new_node h2 0 0 a b")
        have h3: "code h3 = code h2 \<and> cout h3 = cout h2"
          using nn by (auto simp: new_node_def Let_def)
        have m: "merge_loop h = merge_loop (qinsert h3 n)"
          using True Some r1 S2 r2 nn by (subst merge_loop.simps) simp
        have "code (merge_loop (qinsert h3 n)) = code (qinsert h3 n) \<and>
              cout (merge_loop (qinsert h3 n)) = cout (qinsert h3 n)"
          using "1.IH" [OF True Some [unfolded r1] refl S2 [unfolded r2] refl nn [symmetric] refl] .
        then show ?thesis
          using m h3 qremove_book [of h b h1] qremove_book [of h1 a h2] Some r1 S2 r2
          by (simp add: qinsert_def)
      qed
    qed
  qed
qed

lemma build_code_qq: "qq (build_code t len o1 o2 h) = qq h"
  by (induction t arbitrary: len o1 o2 h) (simp_all add: Let_def)

lemma initByRRRSets3_book_ok:
  assumes "initByRRRSets3 h R = Some h'" "book_ok h" "height (hd (qq h')) < 256"
  shows "book_ok h'"
proof -
  define fr where "fr = count_freq (allNodes h) R"
  obtain h1 mv mf where il: "insert_leaves fr (h, maxvtx h, 0) = (h1, mv, mf)"
    by (cases "insert_leaves fr (h, maxvtx h, 0)")
  define h2 where "h2 = merge_loop (h1\<lparr>maxvtx := mv\<rparr>)"
  from assms(1) obtain rt rest where q: "qq h2 = rt # rest" and r: "h' = build_code rt 0 0 0 h2"
    by (auto simp: initByRRRSets3_def Let_def fr_def [symmetric] il h2_def [symmetric]
        split: list.splits)
  have "code h2 = code h \<and> cout h2 = cout h"
    using merge_loop_book [of "h1\<lparr>maxvtx := mv\<rparr>"] insert_leaves_book [OF il]
    by (simp add: h2_def)
  then have b2: "book_ok h2" using assms(2) by (simp add: book_ok_iff)
  have "hd (qq h') = rt" using r q by (simp add: build_code_qq)
  then have "0 + height rt < 256" using assms(3) by simp
  from build_code_book_ok [OF b2 this] r show ?thesis by simp
qed

lemma initByRRRSets_book_ok:
  assumes "initByRRRSets h R = Some (h', mv')" "book_ok h" "height (hd (qq h')) < 256"
  shows "book_ok h'"
proof -
  define fr where "fr = count_freq (allNodes h) R"
  obtain h1 mv mf where il: "insert_leaves fr (h, 0, 0) = (h1, mv, mf)"
    by (cases "insert_leaves fr (h, 0, 0)")
  define h2 where "h2 = merge_loop h1"
  from assms(1) obtain rt rest where q: "qq h2 = rt # rest"
    and r: "h' = (build_code rt 0 0 0 h2)\<lparr>maxvtx := mv\<rparr>"
    by (auto simp: initByRRRSets_def Let_def fr_def [symmetric] il h2_def [symmetric]
        split: list.splits)
  have "code h2 = code h \<and> cout h2 = cout h"
    using merge_loop_book [of h1] insert_leaves_book [OF il]
    by (simp add: h2_def)
  then have b2: "book_ok h2" using assms(2) by (simp add: book_ok_iff)
  have "hd (qq h') = rt" using r q by (simp add: build_code_qq)
  then have "0 + height rt < 256" using assms(3) by simp
  from build_code_book_ok [OF b2 this] r show ?thesis by (simp add: book_ok_iff)
qed

text \<open>
  The tree that \<^verbatim>\<open>initByRRRSets3\<close> builds for the pool of the single RR set
  \<open>[1, 2, 3]\<close> over four vertices, used as a concrete code book below: the codes are
  \<open>01\<close> for vertex 1, \<open>1\<close> for vertex 2 and \<open>00\<close> for vertex 3.
\<close>

definition ex_tree :: HuffmanTree where
  "ex_tree = \<lparr> stateNum = 4, allNodes = 8,
      pool = [Leaf 1 1, Leaf 1 2, Leaf 1 3, Inner (Leaf 1 3) (Leaf 1 1) 2,
              Inner (Inner (Leaf 1 3) (Leaf 1 1) 2) (Leaf 1 2) 3],
      qq = [Inner (Inner (Leaf 1 3) (Leaf 1 1) 2) (Leaf 1 2) 3],
      code = [None, Some (4611686018427387904, 0), Some (9223372036854775808, 0), Some (0, 0)],
      cout = [0, 2, 1, 2], maxvtx = 3 \<rparr>"

lemma ex_tree_built: "initByRRRSets3 (createHuffmanTree 4) [[1, 2, 3]] = Some ex_tree"
  by code_simp

theorem encoders_cutoff_witness:
  "book_ok ex_tree \<and> list_all (\<lambda>v. v < length (cout ex_tree)) [1, 2, 3] \<and>
   list_all (\<lambda>v. v < length (cout ex_tree)) [0, 1, 2, 3] \<and>
   8 * length [1, 2, 3 :: nat] \<le> 24 \<and> 8 * length [0, 1, 2, 3 :: nat] \<le> 32 \<and>
   stream_of ex_tree 19 [1, 2, 3] = [False, True, True, False, False] \<and>
   stream_of ex_tree 32 [3, 1, 2, 0] = [False, False, False, True, True] \<and>
   (encodeRR ex_tree [1, 2, 3] (replicate 24 0)
      = Some \<lparr> e_out = 96 # replicate 23 0, e_p = 0, e_lackBits = 3, e_encodeSize = 1,
               e_code_cnt = 3, e_cpy = [], e_copy_cnt = 0 \<rparr> \<and>
    classified ex_tree 19 True [1, 2, 3]
      \<lparr> e_out = 96 # replicate 23 0, e_p = 0, e_lackBits = 3, e_encodeSize = 1,
        e_code_cnt = 3, e_cpy = [], e_copy_cnt = 0 \<rparr>) \<and>
   (encodeRR2 ex_tree [1, 2, 3] (replicate 24 0) [0, 0, 0, 0] 0
      = Some (\<lparr> e_out = 96 # replicate 23 0, e_p = 0, e_lackBits = 3, e_encodeSize = 1,
                e_code_cnt = 3, e_cpy = [], e_copy_cnt = 0 \<rparr>, [0, 1, 1, 1], 3) \<and>
    classified ex_tree 32 True [1, 2, 3]
      \<lparr> e_out = 96 # replicate 23 0, e_p = 0, e_lackBits = 3, e_encodeSize = 1,
        e_code_cnt = 3, e_cpy = [], e_copy_cnt = 0 \<rparr>) \<and>
   (encodeRR3 ex_tree [1, 2, 3] (replicate 24 0) 3
      = Some \<lparr> e_out = 40 # replicate 23 0, e_p = 0, e_lackBits = 3, e_encodeSize = 1,
               e_code_cnt = 3, e_cpy = [], e_copy_cnt = 0 \<rparr> \<and>
    classified ex_tree 32 True (swap_max_front 3 [1, 2, 3])
      \<lparr> e_out = 40 # replicate 23 0, e_p = 0, e_lackBits = 3, e_encodeSize = 1,
        e_code_cnt = 3, e_cpy = [], e_copy_cnt = 0 \<rparr>) \<and>
   (encodeRR22 ex_tree [0, 1, 2, 3] (replicate 32 0) 3 ''Y''
      = Some ([3, 1, 2, 0],
              \<lparr> e_out = 24 # replicate 31 0, e_p = 0, e_lackBits = 3, e_encodeSize = 1,
                e_code_cnt = 3, e_cpy = [], e_copy_cnt = 1 \<rparr>) \<and>
    [3, 1, 2, 0] = swap_max_front 3 [0, 1, 2, 3] \<and>
    classified ex_tree 32 (''Y'' = ''N'') [3, 1, 2, 0]
      \<lparr> e_out = 24 # replicate 31 0, e_p = 0, e_lackBits = 3, e_encodeSize = 1,
        e_code_cnt = 3, e_cpy = [], e_copy_cnt = 1 \<rparr>)"
proof -
  have b: "book_ok ex_tree" by code_simp
  have r3: "list_all (\<lambda>v. v < length (cout ex_tree)) [1, 2, 3]" by code_simp
  have r4: "list_all (\<lambda>v. v < length (cout ex_tree)) [0, 1, 2, 3]" by code_simp
  have n3: "8 * length [1, 2, 3 :: nat] \<le> 24" by simp
  have n4: "8 * length [0, 1, 2, 3 :: nat] \<le> 32" by simp
  have s3: "stream_of ex_tree 19 [1, 2, 3] = [False, True, True, False, False]" by code_simp
  have s4: "stream_of ex_tree 32 [3, 1, 2, 0] = [False, False, False, True, True]" by code_simp
  have sw: "[3, 1, 2, 0] = swap_max_front 3 [0, 1, 2, 3]" by code_simp
  have 1: "encodeRR ex_tree [1, 2, 3] (replicate 24 0)
      = Some \<lparr> e_out = 96 # replicate 23 0, e_p = 0, e_lackBits = 3, e_encodeSize = 1,
               e_code_cnt = 3, e_cpy = [], e_copy_cnt = 0 \<rparr>"
    by code_simp
  have 2: "encodeRR2 ex_tree [1, 2, 3] (replicate 24 0) [0, 0, 0, 0] 0
      = Some (\<lparr> e_out = 96 # replicate 23 0, e_p = 0, e_lackBits = 3, e_encodeSize = 1,
                e_code_cnt = 3, e_cpy = [], e_copy_cnt = 0 \<rparr>, [0, 1, 1, 1], 3)"
    by code_simp
  have 3: "encodeRR3 ex_tree [1, 2, 3] (replicate 24 0) 3
      = Some \<lparr> e_out = 40 # replicate 23 0, e_p = 0, e_lackBits = 3, e_encodeSize = 1,
               e_code_cnt = 3, e_cpy = [], e_copy_cnt = 0 \<rparr>"
    by code_simp
  have 4: "encodeRR22 ex_tree [0, 1, 2, 3] (replicate 32 0) 3 ''Y''
      = Some ([3, 1, 2, 0],
              \<lparr> e_out = 24 # replicate 31 0, e_p = 0, e_lackBits = 3, e_encodeSize = 1,
                e_code_cnt = 3, e_cpy = [], e_copy_cnt = 1 \<rparr>)"
    by code_simp
  note t2 = encoders_cutoff [OF b r3 n3, where g = "[0, 0, 0, 0]" and mv = 0]
  note t3 = encoders_cutoff [OF b r3 n3, where mv = 3]
  note t4 = encoders_cutoff [OF b r4 n4, where mv = 3 and lossyFlag = "''Y''"]
  have c1: "classified ex_tree 19 True [1, 2, 3]
      \<lparr> e_out = 96 # replicate 23 0, e_p = 0, e_lackBits = 3, e_encodeSize = 1,
        e_code_cnt = 3, e_cpy = [], e_copy_cnt = 0 \<rparr>"
    using t3 [THEN conjunct1] unfolding 1 by simp
  have c2: "classified ex_tree 32 True [1, 2, 3]
      \<lparr> e_out = 96 # replicate 23 0, e_p = 0, e_lackBits = 3, e_encodeSize = 1,
        e_code_cnt = 3, e_cpy = [], e_copy_cnt = 0 \<rparr>"
    using t2 [THEN conjunct2, THEN conjunct1] unfolding 2 by simp
  have c3: "classified ex_tree 32 True (swap_max_front 3 [1, 2, 3])
      \<lparr> e_out = 40 # replicate 23 0, e_p = 0, e_lackBits = 3, e_encodeSize = 1,
        e_code_cnt = 3, e_cpy = [], e_copy_cnt = 0 \<rparr>"
    using t3 [THEN conjunct2, THEN conjunct2, THEN conjunct1] unfolding 3 by simp
  have c4: "classified ex_tree 32 (''Y'' = ''N'') [3, 1, 2, 0]
      \<lparr> e_out = 24 # replicate 31 0, e_p = 0, e_lackBits = 3, e_encodeSize = 1,
        e_code_cnt = 3, e_cpy = [], e_copy_cnt = 1 \<rparr>"
    using t4 [THEN conjunct2, THEN conjunct2, THEN conjunct2] unfolding 4 sw [symmetric] by simp
  show ?thesis
    by (intro conjI) (rule b r3 r4 n3 n4 s3 s4 sw 1 2 3 4 c1 c2 c3 c4)+
qed

text \<open>
  A tree of depth 20 over the vertices \<open>0, \<dots>, 20\<close>, of the shape of a Huffman tree
  for the frequencies \<open>1, 1, 2, 4, \<dots>, 2^19\<close>: vertex 0 and vertex 1 have codes of 20
  bits.
\<close>

definition deep_tree :: node where
  "deep_tree = Inner (Leaf 524288 20) (Inner (Leaf 262144 19) (Inner (Leaf 131072 18) (Inner (Leaf 65536 17) (Inner (Leaf 32768 16) (Inner (Leaf 16384 15) (Inner (Leaf 8192 14) (Inner (Leaf 4096 13) (Inner (Leaf 2048 12) (Inner (Leaf 1024 11) (Inner (Leaf 512 10) (Inner (Leaf 256 9) (Inner (Leaf 128 8) (Inner (Leaf 64 7) (Inner (Leaf 32 6) (Inner (Leaf 16 5) (Inner (Leaf 8 4) (Inner (Leaf 4 3) (Inner (Leaf 2 2) (Inner (Leaf 1 1) (Leaf 1 0) 2) 4) 8) 16) 32) 64) 128) 256) 512) 1024) 2048) 4096) 8192) 16384) 32768) 65536) 131072) 262144) 524288) 1048576"

text \<open>
  The claim as stated fails for \<^verbatim>\<open>encodeRR\<close>: in the code book of \<open>deep_tree\<close> vertex 0
  has a code of 20 bits, which is at most 32, and \<^verbatim>\<open>encodeRR\<close> puts it in the overflow
  list, leaves \<^verbatim>\<open>code_cnt\<close> at 0 and writes nothing to the buffer.
\<close>

theorem encodeRR_cutoff_counterexample:
  "cout (build_code deep_tree 0 0 0 (createHuffmanTree 21)) ! 0 = 20 \<and>
   code (build_code deep_tree 0 0 0 (createHuffmanTree 21)) ! 0 = Some (18446726481523507200, 0) \<and>
   map_option (\<lambda>st. (e_code_cnt st, e_cpy st, e_encodeSize st, e_out st))
     (encodeRR (build_code deep_tree 0 0 0 (createHuffmanTree 21)) [0] (replicate 8 0))
     = Some (0, [0], 0, replicate 8 0)"
  by (simp add: deep_tree_def createHuffmanTree_def Let_def encodeRR_def enc_step_def enc_init_def)

section \<open>Correctness of the parallel partition\<close>

text \<open>The loop of \<^verbatim>\<open>swap_ranges\<close> over \<open>n\<close> positions.\<close>

definition swap_n :: "nat \<Rightarrow> nat \<Rightarrow> nat \<Rightarrow> 'a list \<Rightarrow> 'a list" where
  "swap_n B O' n xs = fold (\<lambda>i a. a[B + i := a ! (O' + i), O' + i := a ! (B + i)]) [0 ..< n] xs"

lemma swap_n_Suc:
  "swap_n B O' (Suc n) xs =
     (let a = swap_n B O' n xs in a[B + n := a ! (O' + n), O' + n := a ! (B + n)])"
  by (simp add: swap_n_def Let_def)

lemma swap_n_0 [simp]: "swap_n B O' 0 xs = xs"
  by (simp add: swap_n_def)

lemma swap_n_props:
  assumes "B + n \<le> O' \<or> O' + n \<le> B" "B + n \<le> length xs" "O' + n \<le> length xs"
  shows "length (swap_n B O' n xs) = length xs \<and>
         mset (swap_n B O' n xs) = mset xs \<and>
         (\<forall>i < n. swap_n B O' n xs ! (B + i) = xs ! (O' + i) \<and>
                  swap_n B O' n xs ! (O' + i) = xs ! (B + i)) \<and>
         (\<forall>k. \<not> (B \<le> k \<and> k < B + n) \<and> \<not> (O' \<le> k \<and> k < O' + n) \<longrightarrow>
              swap_n B O' n xs ! k = xs ! k)"
  using assms
proof (induction n)
  case 0
  then show ?case by simp
next
  case (Suc n)
  let ?a = "swap_n B O' n xs"
  have IH: "length ?a = length xs" "mset ?a = mset xs"
    "\<And>i. i < n \<Longrightarrow> ?a ! (B + i) = xs ! (O' + i) \<and> ?a ! (O' + i) = xs ! (B + i)"
    "\<And>k. \<not> (B \<le> k \<and> k < B + n) \<Longrightarrow> \<not> (O' \<le> k \<and> k < O' + n) \<Longrightarrow> ?a ! k = xs ! k"
    using Suc.IH Suc.prems by auto
  have bn: "B + n < length ?a" "O' + n < length ?a" "B + n \<noteq> O' + n"
    using Suc.prems IH(1) by auto
  have an: "?a ! (B + n) = xs ! (B + n)" "?a ! (O' + n) = xs ! (O' + n)"
    using Suc.prems by (auto intro!: IH(4))
  show ?case
  proof (intro conjI allI impI)
    show "length (swap_n B O' (Suc n) xs) = length xs"
      by (simp add: swap_n_Suc Let_def IH(1))
    show "mset (swap_n B O' (Suc n) xs) = mset xs"
      using mset_swap [OF bn(2) bn(1)] IH(2) by (simp add: swap_n_Suc Let_def)
  next
    fix i assume "i < Suc n"
    then show "swap_n B O' (Suc n) xs ! (B + i) = xs ! (O' + i)"
      using bn an IH(3) [of i] Suc.prems
      by (cases "i = n") (auto simp: swap_n_Suc Let_def nth_list_update)
  next
    fix i assume "i < Suc n"
    then show "swap_n B O' (Suc n) xs ! (O' + i) = xs ! (B + i)"
      using bn an IH(3) [of i] Suc.prems
      by (cases "i = n") (auto simp: swap_n_Suc Let_def nth_list_update)
  next
    fix k assume "\<not> (B \<le> k \<and> k < B + Suc n) \<and> \<not> (O' \<le> k \<and> k < O' + Suc n)"
    then show "swap_n B O' (Suc n) xs ! k = xs ! k"
      using bn IH(4) [of k]
      by (auto simp: swap_n_Suc Let_def nth_list_update)
  qed
qed

lemma swap_ranges_eq: "swap_ranges B E O' xs = (O' + (E - B), swap_n B O' (E - B) xs)"
  by (simp add: swap_ranges_def swap_n_def)

lemma swap_n_nth:
  assumes "B + n \<le> O' \<or> O' + n \<le> B" "B + n \<le> length xs" "O' + n \<le> length xs"
  shows "swap_n B O' n xs ! k =
           (if B \<le> k \<and> k < B + n then xs ! (O' + (k - B))
            else if O' \<le> k \<and> k < O' + n then xs ! (B + (k - O'))
            else xs ! k)"
proof -
  note p = swap_n_props [OF assms]
  show ?thesis
  proof (cases "B \<le> k \<and> k < B + n")
    case True
    then have "k - B < n" "k = B + (k - B)" by auto
    with p True show ?thesis by metis
  next
    case False
    show ?thesis
    proof (cases "O' \<le> k \<and> k < O' + n")
      case True
      then have "k - O' < n" "k = O' + (k - O')" by auto
      with p True False show ?thesis by metis
    next
      case F2: False
      with p False show ?thesis by auto
    qed
  qed
qed

text \<open>
  A triple describes a partitioned range of the sequence: the elements from begin to
  pivot satisfy \<open>P\<close>, those from pivot to end do not.
\<close>

definition seg_ok :: "('a \<Rightarrow> bool) \<Rightarrow> 'a list \<Rightarrow> PartitionIndices \<Rightarrow> bool" where
  "seg_ok P xs L =
     (pi_begin L \<le> pi_pivot L \<and> pi_pivot L \<le> pi_end L \<and> pi_end L \<le> length xs \<and>
      (\<forall>i. pi_begin L \<le> i \<and> i < pi_pivot L \<longrightarrow> P (xs ! i)) \<and>
      (\<forall>i. pi_pivot L \<le> i \<and> i < pi_end L \<longrightarrow> \<not> P (xs ! i)))"

lemma pi_plus_ok:
  assumes L: "seg_ok P xs L" and R: "seg_ok P xs R" and adj: "pi_end L = pi_begin R"
    and eq: "pi_plus L R xs = (M, xs')"
  shows "seg_ok P xs' M \<and> pi_begin M = pi_begin L \<and> pi_end M = pi_end R \<and>
         length xs' = length xs \<and> mset xs' = mset xs \<and>
         (\<forall>k. k < pi_begin L \<or> pi_end R \<le> k \<longrightarrow> xs' ! k = xs ! k)"
proof -
  consider (a) "pi_pivot L = pi_begin L \<and> pi_pivot R = pi_begin R"
    | (b) "\<not> (pi_pivot L = pi_begin L \<and> pi_pivot R = pi_begin R)" "pi_pivot L = pi_end L"
    | (c) "\<not> (pi_pivot L = pi_begin L \<and> pi_pivot R = pi_begin R)" "pi_pivot L \<noteq> pi_end L"
          "pi_end L - pi_pivot L < pi_pivot R - pi_begin R"
    | (d) "\<not> (pi_pivot L = pi_begin L \<and> pi_pivot R = pi_begin R)" "pi_pivot L \<noteq> pi_end L"
          "\<not> pi_end L - pi_pivot L < pi_pivot R - pi_begin R"
    by blast
  then show ?thesis
  proof cases
    case a
    with eq have "M = L\<lparr>pi_end := pi_end R\<rparr>" "xs' = xs"
      by (auto simp: pi_plus_def)
    with L R adj a show ?thesis
      by (auto simp: seg_ok_def) (meson not_le_imp_less)+
  next
    case b
    with eq have "M = L\<lparr>pi_end := pi_end R, pi_pivot := pi_pivot R\<rparr>" "xs' = xs"
      by (auto simp: pi_plus_def)
    with L R adj b show ?thesis
      by (auto simp: seg_ok_def) (meson not_le_imp_less)+
  next
    case c
    define m where "m = pi_end L - pi_pivot L"
    define Q where "Q = pi_pivot R - m"
    have lt: "int (pi_end L) - int (pi_pivot L) < int (pi_pivot R) - int (pi_begin R)"
      using c L R by (auto simp: seg_ok_def)
    from eq c lt have M: "M = L\<lparr>pi_pivot := Q, pi_end := pi_end R\<rparr>"
      and xs': "xs' = swap_n (pi_pivot L) Q m xs"
      by (auto simp: pi_plus_def swap_ranges_eq Let_def m_def Q_def)
    have ar: "pi_begin L \<le> pi_pivot L" "pi_pivot L + m = pi_end L" "pi_end L \<le> Q"
      "Q + m = pi_pivot R" "pi_pivot R \<le> pi_end R" "pi_end R \<le> length xs" "pi_begin R = pi_end L"
      using c L R adj by (auto simp: seg_ok_def m_def Q_def)
    have LP: "\<And>i. pi_begin L \<le> i \<Longrightarrow> i < pi_pivot L \<Longrightarrow> P (xs ! i)"
      and LN: "\<And>i. pi_pivot L \<le> i \<Longrightarrow> i < pi_end L \<Longrightarrow> \<not> P (xs ! i)"
      and RP: "\<And>i. pi_begin R \<le> i \<Longrightarrow> i < pi_pivot R \<Longrightarrow> P (xs ! i)"
      and RN: "\<And>i. pi_pivot R \<le> i \<Longrightarrow> i < pi_end R \<Longrightarrow> \<not> P (xs ! i)"
      using L R by (auto simp: seg_ok_def)
    have cond: "pi_pivot L + m \<le> Q \<or> Q + m \<le> pi_pivot L"
      "pi_pivot L + m \<le> length xs" "Q + m \<le> length xs"
      using ar by auto
    note nth = swap_n_nth [OF cond] and pr = swap_n_props [OF cond]
    have T: "P (xs' ! i)" if "pi_begin L \<le> i" "i < Q" for i
    proof -
      consider "i < pi_pivot L" | "pi_pivot L \<le> i" "i < pi_end L" | "pi_end L \<le> i"
        by linarith
      then show ?thesis
      proof cases
        case 1
        then have "xs' ! i = xs ! i" using ar by (simp add: xs' nth)
        with LP [OF that(1) 1] show ?thesis by simp
      next
        case 2
        then have "xs' ! i = xs ! (Q + (i - pi_pivot L))" using ar by (simp add: xs' nth)
        moreover have "P (xs ! (Q + (i - pi_pivot L)))"
          using 2 ar by (intro RP) auto
        ultimately show ?thesis by simp
      next
        case 3
        then have "xs' ! i = xs ! i" using ar that by (simp add: xs' nth)
        moreover have "P (xs ! i)" using 3 ar that by (intro RP) auto
        ultimately show ?thesis by simp
      qed
    qed
    have F: "\<not> P (xs' ! i)" if "Q \<le> i" "i < pi_end R" for i
    proof (cases "i < pi_pivot R")
      case True
      then have "xs' ! i = xs ! (pi_pivot L + (i - Q))" using ar that by (simp add: xs' nth)
      moreover have "\<not> P (xs ! (pi_pivot L + (i - Q)))"
        using True ar that by (intro LN) auto
      ultimately show ?thesis by simp
    next
      case False
      then have "xs' ! i = xs ! i" using ar that by (simp add: xs' nth)
      moreover have "\<not> P (xs ! i)" using False that by (intro RN) auto
      ultimately show ?thesis by simp
    qed
    have U: "xs' ! k = xs ! k" if "k < pi_begin L \<or> pi_end R \<le> k" for k
      using that ar by (auto simp: xs' nth)
    show ?thesis
      using T F U ar pr by (auto simp: M seg_ok_def xs')
  next
    case d
    define m where "m = pi_pivot R - pi_begin R"
    define Q where "Q = pi_pivot L + m"
    have lt: "\<not> int (pi_end L) - int (pi_pivot L) < int (pi_pivot R) - int (pi_begin R)"
      using d L R by (auto simp: seg_ok_def)
    from eq d lt have M: "M = L\<lparr>pi_pivot := Q, pi_end := pi_end R\<rparr>"
      and xs': "xs' = swap_n (pi_begin R) (pi_pivot L) m xs"
      by (auto simp: pi_plus_def swap_ranges_eq Let_def m_def Q_def)
    have ar: "pi_begin L \<le> pi_pivot L" "Q \<le> pi_end L" "pi_begin R + m = pi_pivot R"
      "pi_pivot R \<le> pi_end R" "pi_end R \<le> length xs" "pi_end L = pi_begin R"
      "Q = pi_pivot L + m"
      using d L R adj by (auto simp: seg_ok_def m_def Q_def)
    have LP: "\<And>i. pi_begin L \<le> i \<Longrightarrow> i < pi_pivot L \<Longrightarrow> P (xs ! i)"
      and LN: "\<And>i. pi_pivot L \<le> i \<Longrightarrow> i < pi_end L \<Longrightarrow> \<not> P (xs ! i)"
      and RP: "\<And>i. pi_begin R \<le> i \<Longrightarrow> i < pi_pivot R \<Longrightarrow> P (xs ! i)"
      and RN: "\<And>i. pi_pivot R \<le> i \<Longrightarrow> i < pi_end R \<Longrightarrow> \<not> P (xs ! i)"
      using L R by (auto simp: seg_ok_def)
    have cond: "pi_begin R + m \<le> pi_pivot L \<or> pi_pivot L + m \<le> pi_begin R"
      "pi_begin R + m \<le> length xs" "pi_pivot L + m \<le> length xs"
      using ar by auto
    note nth = swap_n_nth [OF cond] and pr = swap_n_props [OF cond]
    have T: "P (xs' ! i)" if "pi_begin L \<le> i" "i < Q" for i
    proof (cases "i < pi_pivot L")
      case True
      then have "xs' ! i = xs ! i" using ar by (simp add: xs' nth)
      with LP [OF that(1) True] show ?thesis by simp
    next
      case False
      then have "xs' ! i = xs ! (pi_begin R + (i - pi_pivot L))" using ar that by (simp add: xs' nth)
      moreover have "P (xs ! (pi_begin R + (i - pi_pivot L)))"
        using False ar that by (intro RP) auto
      ultimately show ?thesis by simp
    qed
    have F: "\<not> P (xs' ! i)" if "Q \<le> i" "i < pi_end R" for i
    proof -
      consider "i < pi_end L" | "pi_end L \<le> i" "i < pi_pivot R" | "pi_pivot R \<le> i"
        by linarith
      then show ?thesis
      proof cases
        case 1
        then have "xs' ! i = xs ! i" using ar that by (simp add: xs' nth)
        moreover have "\<not> P (xs ! i)" using 1 ar that by (intro LN) auto
        ultimately show ?thesis by simp
      next
        case 2
        then have "xs' ! i = xs ! (pi_pivot L + (i - pi_begin R))" using ar that by (simp add: xs' nth)
        moreover have "\<not> P (xs ! (pi_pivot L + (i - pi_begin R)))"
          using 2 ar that by (intro LN) auto
        ultimately show ?thesis by simp
      next
        case 3
        then have "xs' ! i = xs ! i" using ar that by (simp add: xs' nth)
        moreover have "\<not> P (xs ! i)" using 3 that by (intro RN) auto
        ultimately show ?thesis by simp
      qed
    qed
    have U: "xs' ! k = xs ! k" if "k < pi_begin L \<or> pi_end R \<le> k" for k
      using that ar by (auto simp: xs' nth)
    show ?thesis
      using T F U ar pr by (auto simp: M seg_ok_def xs')
  qed
qed

text \<open>The lower end of the slice of thread \<open>t\<close>.\<close>

definition slice_lo :: "nat \<Rightarrow> nat \<Rightarrow> nat \<Rightarrow> nat" where
  "slice_lo N T t = N * t div T"

lemma slice_lo_mono: "t \<le> t' \<Longrightarrow> slice_lo N T t \<le> slice_lo N T t'"
  by (simp add: slice_lo_def div_le_mono)

lemma slice_lo_T [simp]: "0 < T \<Longrightarrow> slice_lo N T T = N"
  by (simp add: slice_lo_def)

lemma slice_lo_0 [simp]: "slice_lo N T 0 = 0"
  by (simp add: slice_lo_def)

lemma slice_lo_le: "0 < T \<Longrightarrow> t \<le> T \<Longrightarrow> slice_lo N T t \<le> N"
  using slice_lo_mono [of t T N T] by simp

text \<open>
  The state after the threads below \<open>m\<close> have partitioned their slices: their triples
  describe their slices, and the sequence from the slice of thread \<open>m\<close> on is untouched.
\<close>

definition local_inv ::
  "('a \<Rightarrow> bool) \<Rightarrow> nat \<Rightarrow> 'a list \<Rightarrow> nat \<Rightarrow> PartitionIndices list \<times> 'a list \<Rightarrow> bool" where
  "local_inv P T xs m s =
     (length (fst s) = T \<and> length (snd s) = length xs \<and> mset (snd s) = mset xs \<and>
      (\<forall>k. slice_lo (length xs) T m \<le> k \<and> k < length xs \<longrightarrow> snd s ! k = xs ! k) \<and>
      (\<forall>t < m. seg_ok P (snd s) (fst s ! t) \<and>
                pi_begin (fst s ! t) = slice_lo (length xs) T t \<and>
                pi_end (fst s ! t) = slice_lo (length xs) T (Suc t)))"

lemma local_partition_step:
  assumes c: "partition_contract sp" and T: "0 < T" and m: "m < T"
    and inv: "local_inv P T xs m s"
  shows "local_inv P T xs (Suc m) (local_partition sp T P m s)"
proof -
  define N where "N = length xs"
  define b where "b = slice_lo N T m"
  define e where "e = slice_lo N T (Suc m)"
  define ys where "ys = snd s"
  define seg where "seg = take (e - b) (drop b ys)"
  define ys' where "ys' = take b ys @ sp P seg @ drop e ys"
  define I where "I = \<lparr> pi_begin = b, pi_end = e, pi_pivot = b + length (filter P seg) \<rparr>"
  have be: "b \<le> e" "e \<le> N"
    using slice_lo_mono [of m "Suc m" N T] slice_lo_le [OF T, of "Suc m" N] m
    by (auto simp: b_def e_def)
  have len: "length ys = N" "length (fst s) = T" and ms: "mset ys = mset xs"
    using inv by (auto simp: local_inv_def ys_def N_def)
  have res: "local_partition sp T P m s = ((fst s)[m := I], ys')"
    using be by (simp add: local_partition_def Let_def I_def ys'_def seg_def ys_def b_def e_def
        slice_lo_def len [unfolded ys_def] N_def [symmetric] min_def)
  have lseg: "length seg = e - b"
    using be len by (simp add: seg_def)
  have spl: "mset (sp P seg) = mset seg" "length (sp P seg) = e - b"
    and spP: "\<And>i. i < e - b \<Longrightarrow> P (sp P seg ! i) = (i < length (filter P seg))"
    using c lseg mset_eq_length [of "sp P seg" seg] by (auto simp: partition_contract_def)
  have split: "ys = take b ys @ seg @ drop e ys"
  proof -
    have "drop b ys = take (e - b) (drop b ys) @ drop (e - b) (drop b ys)"
      by (rule append_take_drop_id [symmetric])
    moreover have "e - b + b = e"
      using be by simp
    ultimately have "drop b ys = seg @ drop e ys"
      by (simp add: seg_def)
    then show ?thesis
      by (metis append_take_drop_id)
  qed
  have ms': "mset ys' = mset xs"
  proof -
    have "mset ys' = mset (take b ys) + mset seg + mset (drop e ys)"
      by (simp add: ys'_def spl)
    also have "\<dots> = mset ys"
      using arg_cong [OF split, of mset] by simp
    finally show ?thesis using ms by simp
  qed
  have len': "length ys' = N"
    using be len by (simp add: ys'_def spl)
  have nth_lo: "ys' ! k = ys ! k" if "k < b" for k
    using that be len by (simp add: ys'_def nth_append)
  have nth_mid: "ys' ! k = sp P seg ! (k - b)" if "b \<le> k" "k < e" for k
    using that be len by (auto simp: ys'_def nth_append spl)
  have nth_hi: "ys' ! k = ys ! k" if "e \<le> k" "k < N" for k
    using that be len by (auto simp: ys'_def nth_append spl)
  have old: "seg_ok P ys' (fst s ! t)" if "t < m" for t
  proof -
    have so: "seg_ok P ys (fst s ! t)" and en: "pi_end (fst s ! t) = slice_lo N T (Suc t)"
      using inv that by (auto simp: local_inv_def ys_def N_def)
    have "slice_lo N T (Suc t) \<le> b"
      using that by (auto simp: b_def intro: slice_lo_mono)
    with so en show ?thesis
      using len len' by (auto simp: seg_ok_def nth_lo)
  qed
  have lf: "length (filter P seg) \<le> e - b"
    using length_filter_le [of P seg] lseg by simp
  have newT: "P (ys' ! i)" if "b \<le> i" "i < b + length (filter P seg)" for i
  proof -
    have "i < e" "i - b < e - b" "i - b < length (filter P seg)"
      using that lf be by auto
    then show ?thesis
      using nth_mid [OF that(1)] spP [of "i - b"] by simp
  qed
  have newF: "\<not> P (ys' ! i)" if "b + length (filter P seg) \<le> i" "i < e" for i
  proof -
    have "b \<le> i" "i - b < e - b" "\<not> i - b < length (filter P seg)"
      using that lf be by auto
    then show ?thesis
      using nth_mid [OF _ that(2)] spP [of "i - b"] by simp
  qed
  have new: "seg_ok P ys' I"
    unfolding seg_ok_def I_def using be len' lf newT newF by simp
  have frame: "ys' ! k = xs ! k" if "e \<le> k" "k < N" for k
  proof -
    have "ys ! k = xs ! k"
      using inv that be by (auto simp: local_inv_def ys_def N_def b_def)
    with nth_hi [OF that] show ?thesis by simp
  qed
  have all: "seg_ok P ys' ((fst s)[m := I] ! t) \<and>
             pi_begin ((fst s)[m := I] ! t) = slice_lo (length xs) T t \<and>
             pi_end ((fst s)[m := I] ! t) = slice_lo (length xs) T (Suc t)" if "t < Suc m" for t
  proof (cases "t = m")
    case True
    then show ?thesis
      using new len m by (simp add: I_def b_def e_def N_def)
  next
    case False
    then have tm: "t < m" using that by simp
    have "pi_begin (fst s ! t) = slice_lo (length xs) T t"
      "pi_end (fst s ! t) = slice_lo (length xs) T (Suc t)"
      using inv tm by (auto simp: local_inv_def)
    then show ?thesis
      using old [OF tm] False by simp
  qed
  have fr: "ys' ! k = xs ! k" if "slice_lo (length xs) T (Suc m) \<le> k" "k < length xs" for k
    using frame [of k] that by (simp add: e_def N_def)
  show ?thesis
    unfolding res local_inv_def fst_conv snd_conv
    using len len' ms' all fr by (simp add: N_def)
qed

lemma local_phase_upto:
  assumes c: "partition_contract sp" and T: "0 < T" and l: "length ind0 = T"
  shows "m \<le> T \<Longrightarrow> local_inv P T xs m (fold (local_partition sp T P) [0 ..< m] (ind0, xs))"
proof (induction m)
  case 0
  show ?case by (simp add: local_inv_def l)
next
  case (Suc m)
  then have "local_inv P T xs m (fold (local_partition sp T P) [0 ..< m] (ind0, xs))" "m < T"
    by auto
  from local_partition_step [OF c T this(2) this(1)] show ?case
    by simp
qed

text \<open>
  In round \<open>j\<close> of the reduction the triple at index \<open>t\<close> describes the slices of the
  threads \<open>t .. t + j - 1\<close>. \<open>red_inv\<close> is the invariant of the inner loop at index
  \<open>i\<close>, \<open>round_inv\<close> the invariant between rounds.
\<close>

definition blk :: "('a \<Rightarrow> bool) \<Rightarrow> nat \<Rightarrow> nat \<Rightarrow> nat \<Rightarrow> PartitionIndices list \<times> 'a list \<Rightarrow> nat \<Rightarrow> bool" where
  "blk P T N j s t =
     (seg_ok P (snd s) (fst s ! t) \<and> pi_begin (fst s ! t) = slice_lo N T t \<and>
      pi_end (fst s ! t) = slice_lo N T (min (t + j) T))"

definition red_inv ::
  "('a \<Rightarrow> bool) \<Rightarrow> nat \<Rightarrow> 'a list \<Rightarrow> nat \<Rightarrow> nat \<Rightarrow> PartitionIndices list \<times> 'a list \<Rightarrow> bool" where
  "red_inv P T xs j i s =
     (length (fst s) = T \<and> length (snd s) = length xs \<and> mset (snd s) = mset xs \<and>
      (\<forall>t < T. (2 * j dvd t \<and> t < i \<longrightarrow> blk P T (length xs) (2 * j) s t) \<and>
               (j dvd t \<and> i \<le> t \<longrightarrow> blk P T (length xs) j s t)))"

definition round_inv ::
  "('a \<Rightarrow> bool) \<Rightarrow> nat \<Rightarrow> 'a list \<Rightarrow> nat \<Rightarrow> PartitionIndices list \<times> 'a list \<Rightarrow> bool" where
  "round_inv P T xs j s =
     (length (fst s) = T \<and> length (snd s) = length xs \<and> mset (snd s) = mset xs \<and>
      (\<forall>t < T. j dvd t \<longrightarrow> blk P T (length xs) j s t))"

lemma seg_ok_frame:
  assumes "seg_ok P xs L" "length xs' = length xs"
    "\<And>k. pi_begin L \<le> k \<Longrightarrow> k < pi_end L \<Longrightarrow> xs' ! k = xs ! k"
  shows "seg_ok P xs' L"
  using assms unfolding seg_ok_def
  by (metis (no_types, lifting) le_trans less_le_trans not_le order_refl)

lemma local_inv_round:
  assumes "0 < T" "local_inv P T xs T s"
  shows "round_inv P T xs 1 s"
  using assms unfolding local_inv_def round_inv_def blk_def
  by (auto simp: min_def)

lemma reduce_inner_step:
  assumes j: "0 < j" and i: "2 * j dvd i" and lt: "i + j < T"
    and inv: "red_inv P T xs j i s"
    and eq: "pi_plus (fst s ! i) (fst s ! (i + j)) (snd s) = (M, xs')"
  shows "red_inv P T xs j (i + j * 2) ((fst s)[i := M], xs')"
proof -
  define N where "N = length xs"
  define L where "L = fst s ! i"
  define R where "R = fst s ! (i + j)"
  have T: "0 < T" using lt by simp
  have ji: "j dvd i" using i by (metis dvd_mult_right)
  have len: "length (fst s) = T" "length (snd s) = N" "mset (snd s) = mset xs"
    using inv by (auto simp: red_inv_def N_def)
  have bL: "blk P T N j s i" and bR: "blk P T N j s (i + j)"
    using inv lt ji by (auto simp: red_inv_def N_def)
  have L: "seg_ok P (snd s) L" "pi_begin L = slice_lo N T i" "pi_end L = slice_lo N T (i + j)"
    using bL lt by (auto simp: blk_def L_def min_def)
  have R: "seg_ok P (snd s) R" "pi_begin R = slice_lo N T (i + j)"
    "pi_end R = slice_lo N T (min (i + j * 2) T)"
    using bR by (auto simp: blk_def R_def add.assoc mult_2_right)
  have adj: "pi_end L = pi_begin R" using L R by simp
  note ok = pi_plus_ok [OF L(1) R(1) adj eq [folded L_def R_def]]
  have M: "seg_ok P xs' M" "pi_begin M = slice_lo N T i"
    "pi_end M = slice_lo N T (min (i + j * 2) T)"
    and lx: "length xs' = N" and mx: "mset xs' = mset xs"
    and fr: "\<And>k. k < slice_lo N T i \<or> slice_lo N T (min (i + j * 2) T) \<le> k \<Longrightarrow> xs' ! k = snd s ! k"
    using ok by (simp_all add: L(2) R(3) len(2,3)) blast
  have old1: "blk P T N (2 * j) ((fst s)[i := M], xs') t" if tt: "t < T" "2 * j dvd t" "t < i" for t
  proof -
    have b: "blk P T N (2 * j) s t" using inv that by (auto simp: red_inv_def N_def)
    obtain a c where ac: "t = 2 * j * a" "i = 2 * j * c" using tt(2) i by (auto simp: dvd_def)
    then have "a < c" using tt(3) j by simp
    then have "2 * j * Suc a \<le> 2 * j * c" by (intro mult_le_mono2) simp
    then have "t + 2 * j \<le> i" using ac by simp
    then have le: "slice_lo N T (min (t + 2 * j) T) \<le> slice_lo N T i"
      by (intro slice_lo_mono) auto
    have "seg_ok P xs' (fst s ! t)"
    proof (rule seg_ok_frame [of P "snd s"])
      show "seg_ok P (snd s) (fst s ! t)" using b by (simp add: blk_def)
      show "length xs' = length (snd s)" using lx len by simp
      fix k assume "pi_begin (fst s ! t) \<le> k" "k < pi_end (fst s ! t)"
      then have "k < slice_lo N T i" using b le by (simp add: blk_def)
      then show "xs' ! k = snd s ! k" by (intro fr) simp
    qed
    then show ?thesis
      using b tt by (simp add: blk_def)
  qed
  have old2: "blk P T N j ((fst s)[i := M], xs') t" if "t < T" "j dvd t" "i + j * 2 \<le> t" for t
  proof -
    have b: "blk P T N j s t" using inv that by (auto simp: red_inv_def N_def)
    have le: "slice_lo N T (min (i + j * 2) T) \<le> slice_lo N T t"
      using that by (intro slice_lo_mono) auto
    have "seg_ok P xs' (fst s ! t)"
    proof (rule seg_ok_frame [of P "snd s"])
      show "seg_ok P (snd s) (fst s ! t)" using b by (simp add: blk_def)
      show "length xs' = length (snd s)" using lx len by simp
      fix k assume "pi_begin (fst s ! t) \<le> k" "k < pi_end (fst s ! t)"
      then have "slice_lo N T (min (i + j * 2) T) \<le> k" using b le by (simp add: blk_def)
      then show "xs' ! k = snd s ! k" by (intro fr) simp
    qed
    moreover have "t \<noteq> i" using that j by simp
    ultimately show ?thesis
      using b by (simp add: blk_def)
  qed
  have new: "blk P T N (2 * j) ((fst s)[i := M], xs') i"
    using M len lt by (simp add: blk_def mult.commute)
  have none: False if tt: "2 * j dvd t" "i < t" "t < i + j * 2" for t
  proof -
    obtain a c where ac: "t = 2 * j * a" "i = 2 * j * c" using tt(1) i by (auto simp: dvd_def)
    have "c < a" using tt(2) ac j by simp
    moreover have "2 * j * a < 2 * j * Suc c" using tt(3) ac by simp
    then have "a < Suc c" by (metis mult_less_cancel1)
    ultimately show False by simp
  qed
  show ?thesis
    unfolding red_inv_def fst_conv snd_conv N_def [symmetric]
  proof (intro conjI allI impI)
    show "length ((fst s)[i := M]) = T" using len by simp
    show "length xs' = N" by (rule lx)
    show "mset xs' = mset xs" by (rule mx)
  next
    fix t assume t: "t < T" "2 * j dvd t \<and> t < i + j * 2"
    consider "t < i" | "t = i" | "i < t" by linarith
    then show "blk P T N (2 * j) ((fst s)[i := M], xs') t"
    proof cases
      case 1
      then show ?thesis using old1 [of t] t by simp
    next
      case 2
      then show ?thesis using new by simp
    next
      case 3
      then show ?thesis using none [of t] t by simp
    qed
  next
    fix t assume "t < T" "j dvd t \<and> i + j * 2 \<le> t"
    then show "blk P T N j ((fst s)[i := M], xs') t"
      using old2 [of t] by auto
  qed
qed

lemma reduce_inner_done:
  assumes j: "0 < j" and ge: "\<not> i + j < T" and inv: "red_inv P T xs j i s"
  shows "round_inv P T xs (2 * j) s"
  unfolding round_inv_def
proof (intro conjI allI impI)
  show "length (fst s) = T" "length (snd s) = length xs" "mset (snd s) = mset xs"
    using inv by (auto simp: red_inv_def)
next
  fix t assume t: "t < T" "2 * j dvd t"
  show "blk P T (length xs) (2 * j) s t"
  proof (cases "t < i")
    case True
    then show ?thesis using inv t by (auto simp: red_inv_def)
  next
    case False
    have "j dvd t" using t(2) by (metis dvd_mult_right)
    then have "blk P T (length xs) j s t" using inv t False by (auto simp: red_inv_def)
    moreover have "min (t + j) T = T" "min (t + 2 * j) T = T"
      using False ge by auto
    ultimately show ?thesis by (simp add: blk_def)
  qed
qed

lemma reduce_inner_inv:
  "0 < j \<Longrightarrow> 2 * j dvd i \<Longrightarrow> red_inv P T xs j i s \<Longrightarrow>
     round_inv P T xs (2 * j) (reduce_inner j T i s)"
proof (induction j T i s rule: reduce_inner.induct)
  case (1 j T i s)
  show ?case
  proof (cases "i + j < T")
    case True
    obtain M xs' where eq: "pi_plus (fst s ! i) (fst s ! (i + j)) (snd s) = (M, xs')"
      by (cases "pi_plus (fst s ! i) (fst s ! (i + j)) (snd s)")
    have inv': "red_inv P T xs j (i + j * 2) ((fst s)[i := M], xs')"
      by (rule reduce_inner_step [OF "1.prems"(1,2) True "1.prems"(3) eq])
    have dv: "2 * j dvd i + j * 2"
      using "1.prems"(2) by (simp add: mult.commute)
    have "round_inv P T xs (2 * j) (reduce_inner j T (i + j * 2) ((fst s)[i := M], xs'))"
      using "1.IH" [OF _ eq [symmetric] refl "1.prems"(1) dv inv'] True "1.prems"(1) by simp
    then show ?thesis
      using True "1.prems"(1) eq by (subst reduce_inner.simps) simp
  next
    case False
    then have "reduce_inner j T i s = s"
      by (subst reduce_inner.simps) simp
    with reduce_inner_done [OF "1.prems"(1) False "1.prems"(3)] show ?thesis by simp
  qed
qed

lemma reduce_outer_inv:
  "0 < j \<Longrightarrow> 0 < T \<Longrightarrow> round_inv P T xs j s \<Longrightarrow>
     (let s' = reduce_outer j T s in
        length (snd s') = length xs \<and> mset (snd s') = mset xs \<and>
        seg_ok P (snd s') (fst s' ! 0) \<and> pi_begin (fst s' ! 0) = 0 \<and>
        pi_end (fst s' ! 0) = length xs)"
proof (induction j T s rule: reduce_outer.induct)
  case (1 j T s)
  show ?case
  proof (cases "j < T")
    case True
    have "red_inv P T xs j 0 s"
      using "1.prems"(3) by (auto simp: round_inv_def red_inv_def)
    then have "round_inv P T xs (2 * j) (reduce_inner j T 0 s)"
      using reduce_inner_inv [of j 0 P T xs s] "1.prems"(1) by simp
    then show ?thesis
      using "1.IH" [of ] True "1.prems"(1,2) by (subst reduce_outer.simps) simp
  next
    case False
    then have "reduce_outer j T s = s"
      by (subst reduce_outer.simps) simp
    moreover have "blk P T (length xs) j s 0"
      using "1.prems" by (auto simp: round_inv_def)
    moreover have "min j T = T" using False by simp
    ultimately show ?thesis
      using "1.prems" by (simp add: blk_def round_inv_def Let_def)
  qed
qed

lemma stable_partition_contract: "partition_contract stable_partition"
  unfolding partition_contract_def
proof (intro allI conjI impI)
  fix P :: "'a \<Rightarrow> bool" and xs :: "'a list"
  show "mset (stable_partition P xs) = mset xs"
    by (simp add: stable_partition_def)
  fix i assume i: "i < length xs"
  have l: "length (filter P xs) + length (filter (\<lambda>x. \<not> P x) xs) = length xs"
    using sum_length_filter_compl [of P xs] by simp
  show "P (stable_partition P xs ! i) = (i < length (filter P xs))"
  proof (cases "i < length (filter P xs)")
    case True
    then have "filter P xs ! i \<in> set (filter P xs)" by (rule nth_mem)
    with True show ?thesis by (simp add: stable_partition_def nth_append)
  next
    case False
    then have "i - length (filter P xs) < length (filter (\<lambda>x. \<not> P x) xs)"
      using i l by linarith
    then have "filter (\<lambda>x. \<not> P x) xs ! (i - length (filter P xs)) \<in> set (filter (\<lambda>x. \<not> P x) xs)"
      by (rule nth_mem)
    with False show ?thesis by (simp add: stable_partition_def nth_append)
  qed
qed

lemma partitioned_pivot:
  assumes "p \<le> length ys" "\<And>i. i < p \<Longrightarrow> P (ys ! i)"
    "\<And>i. p \<le> i \<Longrightarrow> i < length ys \<Longrightarrow> \<not> P (ys ! i)"
  shows "length (filter P ys) = p"
proof -
  have 1: "filter P (take p ys) = take p ys"
    using assms(1,2) by (auto simp: filter_id_conv in_set_conv_nth)
  have 2: "filter P (drop p ys) = []"
    using assms(1,3) by (auto simp: filter_empty_conv in_set_conv_nth)
  have "filter P ys = filter P (take p ys @ drop p ys)" by simp
  also have "\<dots> = take p ys" unfolding filter_append 1 2 by simp
  finally show ?thesis using assms(1) by simp
qed

text \<open>
  When the team of the parallel region has as many threads as \<^verbatim>\<open>omp_get_max_threads()\<close>
  reports, every entry of \<^verbatim>\<open>indices\<close> is written by its thread before the reduction
  reads it. Then, with a sequential \<^verbatim>\<open>std::partition\<close> that meets its contract and any
  number \<open>T \<ge> 1\<close> of threads, the parallel partition returns a pivot such that every
  element before it satisfies \<open>P\<close>, no element from it on does, the multiset of elements
  is preserved, and the pivot is the number of elements that satisfy \<open>P\<close>.
\<close>

lemma partition_omp_full_team:
  assumes "partition_contract sp" "0 < T"
  shows "(\<forall>i < fst (partition_omp sp T T P xs). P (snd (partition_omp sp T T P xs) ! i)) \<and>
         (\<forall>i. fst (partition_omp sp T T P xs) \<le> i \<and> i < length xs \<longrightarrow>
              \<not> P (snd (partition_omp sp T T P xs) ! i)) \<and>
         mset (snd (partition_omp sp T T P xs)) = mset xs \<and>
         fst (partition_omp sp T T P xs) = length (filter P xs)"
proof -
  define ind0 where "ind0 = replicate T \<lparr> pi_begin = 0, pi_end = length xs, pi_pivot = length xs \<rparr>"
  define s1 where "s1 = fold (local_partition sp T P) [0 ..< T] (ind0, xs)"
  define s2 where "s2 = reduce_outer 1 T s1"
  have res: "partition_omp sp T T P xs = (pi_pivot (fst s2 ! 0), snd s2)"
    by (simp add: partition_omp_def Let_def ind0_def s1_def s2_def)
  have "local_inv P T xs T s1"
    unfolding s1_def by (rule local_phase_upto [OF assms]) (simp_all add: ind0_def)
  then have "round_inv P T xs 1 s1"
    by (rule local_inv_round [OF assms(2)])
  from reduce_outer_inv [OF _ assms(2) this]
  have fin: "length (snd s2) = length xs" "mset (snd s2) = mset xs"
    "seg_ok P (snd s2) (fst s2 ! 0)" "pi_begin (fst s2 ! 0) = 0" "pi_end (fst s2 ! 0) = length xs"
    by (simp_all add: s2_def Let_def)
  define p where "p = pi_pivot (fst s2 ! 0)"
  have p: "p \<le> length xs" "\<And>i. i < p \<Longrightarrow> P (snd s2 ! i)"
    "\<And>i. p \<le> i \<Longrightarrow> i < length xs \<Longrightarrow> \<not> P (snd s2 ! i)"
    using fin(3-5) by (auto simp: seg_ok_def p_def)
  have "length (filter P (snd s2)) = p"
    using p fin(1) by (intro partitioned_pivot) auto
  moreover have "length (filter P (snd s2)) = length (filter P xs)"
    using fin(2) by (metis mset_filter size_mset)
  ultimately have "p = length (filter P xs)" by simp
  with p fin(2) show ?thesis
    by (simp add: res p_def [symmetric])
qed

text \<open>
  C5. The claim fails when the runtime gives the parallel region a team smaller than
  \<^verbatim>\<open>omp_get_max_threads()\<close>. With a maximum of 2 threads and a team of 1, on the
  range \<open>[1, 3]\<close> and the predicate \<open>even\<close>: thread 0 partitions the whole range and
  writes \<open>indices[0] = (0, 2, 0)\<close>; \<open>indices[1]\<close> keeps its initial value \<open>(0, 2, 2)\<close>,
  and the reduction merges it into \<open>indices[0]\<close>, so that the returned pivot is 2, the
  end of the range. No element satisfies the predicate: the pivot that separates the
  elements satisfying \<open>P\<close> from the others is 0, the element at position 0 before the
  returned pivot is odd, and with a team of 2 threads the same call returns 0, so the
  pivot depends on the thread count.
\<close>

theorem partition_omp_small_team:
  "partition_omp stable_partition 2 1 even [1, 3 :: nat] = (2, [1, 3]) \<and>
   \<not> even ([1, 3 :: nat] ! 0) \<and>
   length (filter even [1, 3 :: nat]) = 0 \<and>
   partition_omp stable_partition 2 2 even [1, 3 :: nat] = (0, [1, 3])"
  by code_simp

section \<open>Priority queues that meet the contract\<close>

lemma top_by_in: "q \<noteq> [] \<Longrightarrow> top_by better q \<in> set q"
  by (induction better q rule: top_by.induct) (auto simp: Let_def)

lemma top_by_max:
  assumes "\<And>a b. better a b \<Longrightarrow> snd b \<le> snd a" "\<And>a b. \<not> better a b \<Longrightarrow> snd a \<le> snd b"
  shows "x \<in> set q \<Longrightarrow> snd x \<le> snd (top_by better q)"
proof (induction q arbitrary: x)
  case Nil
  then show ?case by simp
next
  case (Cons e es)
  show ?case
  proof (cases es)
    case Nil
    with Cons.prems show ?thesis by simp
  next
    case (Cons v va)
    define b where "b = top_by better es"
    have r: "top_by better (e # es) = (if better e b then e else b)"
      by (simp add: Cons b_def Let_def)
    have IH: "\<And>y. y \<in> set es \<Longrightarrow> snd y \<le> snd b"
      using Cons.IH by (simp add: b_def)
    show ?thesis
    proof (cases "better e b")
      case True
      then have "snd b \<le> snd e" by (rule assms(1))
      moreover have "snd x \<le> snd b" if "x \<in> set es"
        using IH [OF that] .
      ultimately show ?thesis
        using Cons.prems True r by (cases "x = e") (auto intro: le_trans)
    next
      case False
      then have "snd e \<le> snd b" by (rule assms(2))
      with IH Cons.prems False r show ?thesis
        by (cases "x = e") auto
    qed
  qed
qed

lemma list_pq_contract:
  assumes "\<And>a b. better a b \<Longrightarrow> snd b \<le> snd a" "\<And>a b. \<not> better a b \<Longrightarrow> snd a \<le> snd b"
  shows "pq_contract (list_pq better) (\<lambda>q. True) mset"
proof -
  have 1: "top_by better q \<in># mset q" if "mset q \<noteq> {#}" for q
    using top_by_in [of q better] that by auto
  have 2: "snd x \<le> snd (top_by better q)" if "x \<in># mset q" for x q
    using top_by_max [of better x q, OF assms] that by simp
  show ?thesis
    unfolding pq_contract_def list_pq_def
    using 1 2 by (auto simp: mset_remove1)
qed

lemma pq_small_contract: "pq_contract pq_small (\<lambda>q. True) mset"
  unfolding pq_small_def by (rule list_pq_contract) (auto simp: better_small_def)


section \<open>Empty pool\<close>

text \<open>
  C8. On the empty pool \<^verbatim>\<open>uncovered\<close> starts at 0, the loop body never runs and the
  seed list is empty. The coverage fraction is \<^verbatim>\<open>double(0) / 0\<close>, which is
  not-a-number and not \<open>0.0\<close>. This holds for every queue, partition, policy, \<open>n\<close>
  and \<open>k\<close>.
\<close>

theorem empty_pool_nan: "FindMostInfluentialSet ops sp tag n k [] = Some (NaN, [])"
  by (simp add: FindMostInfluentialSet_def sel_run_def sel_init_def sel_loop.simps Let_def
      ddiv_def size_t_minus_def)

section \<open>The seed list of the raw selector\<close>

text \<open>The counters keep their length.\<close>

lemma length_tally [simp]: "length (tally vs g) = length g"
  by (induction vs arbitrary: g) (simp_all add: tally_def)

lemma length_fold_tally [simp]: "length (fold tally Rs g) = length g"
  by (induction Rs arbitrary: g) simp_all

lemma length_count_clipped [simp]: "length (count_clipped lo hi R out) = length out"
  by (simp add: count_clipped_def Let_def)

lemma length_fold_count_clipped [simp]: "length (fold (count_clipped lo hi) Rs out) = length out"
  by (induction Rs arbitrary: out) simp_all

lemma length_count_thread [simp]: "length (count_thread T t Rs out) = length out"
  by (simp add: count_thread_def Let_def)

lemma length_fold_count_thread [simp]:
  "length (fold (\<lambda>t out. count_thread T t Rs out) ts out) = length out"
  by (induction ts arbitrary: out) simp_all

lemma length_CountOccurrencies [simp]: "length (CountOccurrencies tag Rs out) = length out"
  by (cases tag) (simp_all add: CountOccurrencies_def)

lemma length_dec_counter [simp]: "length (dec_counter v cov) = length cov"
  by (simp add: dec_counter_def)

lemma length_fold_dec_counter [simp]: "length (fold dec_counter R cov) = length cov"
  by (induction R arbitrary: cov) simp_all

lemma length_UpdateCounters [simp]: "length (UpdateCounters Rs cov) = length cov"
  unfolding UpdateCounters_def by (induction Rs arbitrary: cov) simp_all

text \<open>
  The structure of the selection state: every vertex of the graph is either in the queue,
  with exactly one entry, or in the result.
\<close>

definition sel_inv ::
  "'q pq_ops \<Rightarrow> ('q \<Rightarrow> bool) \<Rightarrow> ('q \<Rightarrow> (nat \<times> nat) multiset) \<Rightarrow> nat \<Rightarrow> 'q sel_state \<Rightarrow> bool" where
  "sel_inv ops qinv \<alpha> n s =
     (qinv (s_queue s) \<and> length (s_vertexCoverage s) = n \<and>
      distinct (s_result s) \<and>
      mset (s_result s) + image_mset fst (\<alpha> (s_queue s)) = mset [0 ..< n])"

definition stale :: "nat list \<Rightarrow> nat \<times> nat \<Rightarrow> bool" where
  "stale cov e = (snd e > cov ! fst e)"

definition sel_measure :: "('q \<Rightarrow> (nat \<times> nat) multiset) \<Rightarrow> nat \<Rightarrow> nat \<Rightarrow> 'q sel_state \<Rightarrow> nat" where
  "sel_measure \<alpha> n k s =
     (k - length (s_result s)) * (n + 1) + size (filter_mset (stale (s_vertexCoverage s)) (\<alpha> (s_queue s)))"

lemma sel_inv_size:
  assumes "sel_inv ops qinv \<alpha> n s"
  shows "length (s_result s) + size (\<alpha> (s_queue s)) = n"
proof -
  have "size (mset (s_result s) + image_mset fst (\<alpha> (s_queue s))) = size (mset [0 ..< n])"
    using assms by (simp add: sel_inv_def)
  then show ?thesis by simp
qed

lemma pq_contractD:
  assumes "pq_contract ops qinv \<alpha>"
  shows "qinv (pq_make ops xs)" "\<alpha> (pq_make ops xs) = mset xs"
    and "qinv q \<Longrightarrow> pq_size ops q = size (\<alpha> q)"
    and "qinv q \<Longrightarrow> \<alpha> q \<noteq> {#} \<Longrightarrow> pq_top ops q \<in># \<alpha> q"
    and "qinv q \<Longrightarrow> \<alpha> q \<noteq> {#} \<Longrightarrow> e \<in># \<alpha> q \<Longrightarrow> snd e \<le> snd (pq_top ops q)"
    and "qinv q \<Longrightarrow> \<alpha> q \<noteq> {#} \<Longrightarrow> qinv (pq_pop ops q)"
    and "qinv q \<Longrightarrow> \<alpha> q \<noteq> {#} \<Longrightarrow> \<alpha> (pq_pop ops q) = \<alpha> q - {#pq_top ops q#}"
    and "qinv q \<Longrightarrow> qinv (pq_push ops e q)"
    and "qinv q \<Longrightarrow> \<alpha> (pq_push ops e q) = \<alpha> q + {#e#}"
  using assms unfolding pq_contract_def by blast+

lemma sel_step_cases:
  assumes c: "pq_contract ops qinv \<alpha>" and inv: "sel_inv ops qinv \<alpha> n s"
    and lt: "length (s_result s) < n"
  shows "\<exists>s'. sel_step ops sp tag s = Some s' \<and> sel_inv ops qinv \<alpha> n s' \<and>
           ((s_result s' = s_result s \<and> s_vertexCoverage s' = s_vertexCoverage s \<and>
             size (filter_mset (stale (s_vertexCoverage s')) (\<alpha> (s_queue s')))
               < size (filter_mset (stale (s_vertexCoverage s)) (\<alpha> (s_queue s)))) \<or>
            (\<exists>v. s_result s' = s_result s @ [v]))"
proof -
  define q where "q = s_queue s"
  define el where "el = pq_top ops q"
  define q1 where "q1 = pq_pop ops q"
  define cov where "cov = s_vertexCoverage s"
  have qi: "qinv q" and lc: "length cov = n" and dr: "distinct (s_result s)"
    and ms: "mset (s_result s) + image_mset fst (\<alpha> q) = mset [0 ..< n]"
    using inv by (auto simp: sel_inv_def q_def cov_def)
  have sz: "size (\<alpha> q) > 0"
    using sel_inv_size [OF inv] lt by (simp add: q_def)
  then have ne: "\<alpha> q \<noteq> {#}" by auto
  note cd = pq_contractD [OF c]
  have sz': "pq_size ops q \<noteq> 0"
    using cd(3) [OF qi] sz ne by simp
  have top: "el \<in># \<alpha> q" and pop: "qinv q1" "\<alpha> q1 = \<alpha> q - {#el#}"
    using cd(4,6,7) [OF qi ne] by (simp_all add: el_def q1_def)
  have aq: "\<alpha> q = add_mset el (\<alpha> q1)"
    using top pop by simp
  have "fst el \<in># mset (s_result s) + image_mset fst (\<alpha> q)"
    using top by auto
  then have "fst el \<in> set [0 ..< n]"
    unfolding ms by (metis set_mset_mset)
  then have fl: "fst el < length cov"
    using lc by simp
  show ?thesis
  proof (cases "snd el > cov ! fst el")
    case True
    define s' where "s' = s\<lparr>s_queue := pq_push ops (fst el, cov ! fst el) q1\<rparr>"
    have st: "sel_step ops sp tag s = Some s'"
      using sz' fl True
      by (simp add: sel_step_def Let_def q_def [symmetric] el_def [symmetric] q1_def [symmetric]
          cov_def [symmetric] s'_def)
    have push: "qinv (s_queue s')" "\<alpha> (s_queue s') = add_mset (fst el, cov ! fst el) (\<alpha> q1)"
      using cd(8,9) [OF pop(1)] by (simp_all add: s'_def)
    have "sel_inv ops qinv \<alpha> n s'"
      using push lc dr ms unfolding sel_inv_def aq
      by (simp add: s'_def cov_def)
    moreover have "stale cov el" "\<not> stale cov (fst el, cov ! fst el)"
      using True by (simp_all add: stale_def)
    then have "size (filter_mset (stale cov) (\<alpha> (s_queue s'))) < size (filter_mset (stale cov) (\<alpha> q))"
      unfolding push aq by simp
    ultimately show ?thesis
      using st by (auto simp: s'_def cov_def q_def)
  next
    case False
    obtain itr live where pt: "partition_tag sp tag (\<lambda>a. \<not> binary_search a (fst el)) (take (s_end s) (s_RRRsets s)) = (itr, live)"
      by (cases "partition_tag sp tag (\<lambda>a. \<not> binary_search a (fst el)) (take (s_end s) (s_RRRsets s))")
    define RR' where "RR' = live @ drop (s_end s) (s_RRRsets s)"
    define cov' where "cov' = (if int (s_end s) - int itr < int itr
                        then UpdateCounters (take (s_end s - itr) (drop itr RR')) cov
                        else CountOccurrencies tag (take itr RR') (replicate (length cov) 0))"
    define s' where "s' = \<lparr> s_queue = q1, s_vertexCoverage = cov', s_RRRsets = RR',
                      s_end = itr, s_uncovered = size_t_minus (s_uncovered s) (snd el),
                      s_result = s_result s @ [fst el] \<rparr>"
    have st: "sel_step ops sp tag s = Some s'"
      using sz' fl False pt
      by (simp add: sel_step_def Let_def q_def [symmetric] el_def [symmetric] q1_def [symmetric]
          cov_def [symmetric] s'_def cov'_def RR'_def)
    have lc': "length cov' = n"
      using lc by (simp add: cov'_def)
    have ms': "mset (s_result s @ [fst el]) + image_mset fst (\<alpha> q1) = mset [0 ..< n]"
      using ms unfolding aq by simp
    have "fst el \<notin> set (s_result s)"
    proof
      assume "fst el \<in> set (s_result s)"
      then have "count (mset (s_result s) + image_mset fst (\<alpha> q)) (fst el) \<ge> 2"
        unfolding aq by (simp add: count_mset_gt_0 Suc_le_eq)
      moreover have "count (mset [0 ..< n]) (fst el) = (if fst el \<in> set [0 ..< n] then 1 else 0)"
        using distinct_upt distinct_count_atmost_1 by metis
      then have "count (mset [0 ..< n]) (fst el) \<le> 1"
        by (simp del: mset_upt)
      ultimately show False unfolding ms by simp
    qed
    then have "distinct (s_result s @ [fst el])"
      using dr by simp
    then have "sel_inv ops qinv \<alpha> n s'"
      using pop(1) lc' ms' by (simp add: sel_inv_def s'_def)
    then show ?thesis
      using st by (auto simp: s'_def)
  qed
qed

lemma sel_loop_total:
  assumes c: "pq_contract ops qinv \<alpha>" and kn: "k \<le> n"
  shows "sel_inv ops qinv \<alpha> n s \<Longrightarrow> length (s_result s) \<le> k \<Longrightarrow>
         \<exists>s'. sel_loop ops sp tag k s = Some s' \<and> sel_inv ops qinv \<alpha> n s' \<and>
              length (s_result s') \<le> k \<and>
              \<not> (length (s_result s') < k \<and> s_uncovered s' \<noteq> 0)"
proof (induction "sel_measure \<alpha> n k s" arbitrary: s rule: less_induct)
  case less
  show ?case
  proof (cases "length (s_result s) < k \<and> s_uncovered s \<noteq> 0")
    case False
    then have "sel_loop ops sp tag k s = Some s"
      by (subst sel_loop.simps) auto
    with less.prems False show ?thesis by auto
  next
    case True
    then have lt: "length (s_result s) < n" using kn by simp
    from sel_step_cases [OF c less.prems(1) lt, of sp tag]
    obtain s' where st: "sel_step ops sp tag s = Some s'" and inv': "sel_inv ops qinv \<alpha> n s'"
      and alt: "(s_result s' = s_result s \<and> s_vertexCoverage s' = s_vertexCoverage s \<and>
             size (filter_mset (stale (s_vertexCoverage s')) (\<alpha> (s_queue s')))
               < size (filter_mset (stale (s_vertexCoverage s)) (\<alpha> (s_queue s)))) \<or>
            (\<exists>v. s_result s' = s_result s @ [v])"
      by blast
    have dec: "sel_measure \<alpha> n k s' < sel_measure \<alpha> n k s"
      using alt
    proof
      assume "s_result s' = s_result s \<and> s_vertexCoverage s' = s_vertexCoverage s \<and>
             size (filter_mset (stale (s_vertexCoverage s')) (\<alpha> (s_queue s')))
               < size (filter_mset (stale (s_vertexCoverage s)) (\<alpha> (s_queue s)))"
      then show ?thesis unfolding sel_measure_def by auto
    next
      assume "\<exists>v. s_result s' = s_result s @ [v]"
      then obtain v where r: "s_result s' = s_result s @ [v]" by blast
      have "size (filter_mset (stale (s_vertexCoverage s')) (\<alpha> (s_queue s'))) \<le> size (\<alpha> (s_queue s'))"
        by (rule size_filter_mset_lesseq)
      also have "\<dots> \<le> n"
        using sel_inv_size [OF inv'] by simp
      finally have b: "size (filter_mset (stale (s_vertexCoverage s')) (\<alpha> (s_queue s'))) < n + 1"
        by simp
      have "k - length (s_result s) = Suc (k - length (s_result s'))"
        using True r by auto
      then have "sel_measure \<alpha> n k s = (k - length (s_result s')) * (n + 1) + (n + 1)
                   + size (filter_mset (stale (s_vertexCoverage s)) (\<alpha> (s_queue s)))"
        by (simp add: sel_measure_def)
      with b show ?thesis by (simp add: sel_measure_def)
    qed
    have len: "length (s_result s') \<le> k"
      using alt True by auto
    from less.hyps [OF dec inv' len]
    obtain s'' where "sel_loop ops sp tag k s' = Some s''" "sel_inv ops qinv \<alpha> n s''"
      "length (s_result s'') \<le> k" "\<not> (length (s_result s'') < k \<and> s_uncovered s'' \<noteq> 0)"
      by blast
    moreover have "sel_loop ops sp tag k s = sel_loop ops sp tag k s'"
      using True st by (subst sel_loop.simps) auto
    ultimately show ?thesis by auto
  qed
qed

lemma sel_init_inv:
  assumes c: "pq_contract ops qinv \<alpha>"
  shows "sel_inv ops qinv \<alpha> n (sel_init ops tag n RRRsets)"
proof -
  define cov where "cov = CountOccurrencies tag RRRsets (replicate n 0)"
  have l: "length cov = n" by (simp add: cov_def)
  have "image_mset fst (mset (InitHeapStorage cov)) = mset (map fst (InitHeapStorage cov))"
    by simp
  also have "map fst (InitHeapStorage cov) = [0 ..< n]"
    by (simp add: InitHeapStorage_def l comp_def)
  finally have "image_mset fst (mset (InitHeapStorage cov)) = mset [0 ..< n]" .
  then show ?thesis
    using pq_contractD(1,2) [OF c] l
    by (simp add: sel_inv_def sel_init_def Let_def cov_def [symmetric] del: mset_map mset_upt)
qed

text \<open>
  C3. With a priority queue that meets its contract and \<open>k \<le> n\<close>,
  \<^verbatim>\<open>FindMostInfluentialSet\<close> returns, under every execution policy and for every pool,
  and the seed list has at most \<open>k\<close> elements, which are pairwise distinct vertices of
  the graph. The loop ends because every iteration either selects a vertex or replaces
  a stale queue entry by an exact one, and the counters do not change between
  selections.
\<close>

theorem seeds_bounded_distinct:
  assumes "pq_contract ops qinv \<alpha>" "k \<le> n"
  shows "\<exists>f seeds. FindMostInfluentialSet ops sp tag n k RRRsets = Some (f, seeds) \<and>
           length seeds \<le> k \<and> distinct seeds \<and> set seeds \<subseteq> {..< n}"
proof -
  from sel_loop_total [OF assms sel_init_inv [OF assms(1)], of tag RRRsets sp]
  obtain s' where r: "sel_run ops sp tag n k RRRsets = Some s'"
    and inv: "sel_inv ops qinv \<alpha> n s'" and len: "length (s_result s') \<le> k"
    by (auto simp: sel_run_def sel_init_def Let_def)
  have "distinct (s_result s')" using inv by (simp add: sel_inv_def)
  moreover have "mset (s_result s') \<subseteq># mset [0 ..< n]"
    using inv unfolding sel_inv_def by (metis mset_subset_eq_add_left)
  then have "set (s_result s') \<subseteq> set [0 ..< n]"
    by (metis set_mset_mono set_mset_mset)
  ultimately show ?thesis
    using r len by (auto simp: FindMostInfluentialSet_def)
qed

theorem seeds_bounded_distinct_witness:
  "pq_contract pq_small (\<lambda>q. True) mset \<and> (2 :: nat) \<le> 4 \<and>
   FindMostInfluentialSet pq_small stable_partition sequential_tag 4 2 [[0], [0, 1], [1, 2], [3]]
     = Some (Fin (3 / 4), [0, 1]) \<and>
   length [0, 1 :: nat] \<le> 2 \<and> distinct [0, 1 :: nat] \<and> set [0, 1 :: nat] \<subseteq> {..< 4}"
proof -
  have k: "(2 :: nat) \<le> 4" by simp
  have e: "FindMostInfluentialSet pq_small stable_partition sequential_tag 4 2 [[0], [0, 1], [1, 2], [3]]
     = Some (Fin (3 / 4), [0, 1])"
    by code_simp
  from seeds_bounded_distinct [OF pq_small_contract k, of stable_partition sequential_tag
      "[[0], [0, 1], [1, 2], [3]]"]
  have "length [0, 1 :: nat] \<le> 2 \<and> distinct [0, 1 :: nat] \<and> set [0, 1 :: nat] \<subseteq> {..< 4}"
    unfolding e by blast
  with pq_small_contract k e show ?thesis by blast
qed

section \<open>Tie-breaking\<close>












end
